theory Spec2Isabelle
  imports Complex_Main "HOL-Library.Word"
begin

unbundle bit_operations_syntax

section \<open>TPS-UID v1 (class TPSUID7RB of src/index.ts)\<close>

text \<open>
  A \<open>Uint8Array\<close> is a list of 8-bit words. A JavaScript string is the list of its
  UTF-16 code units. Every \<open>throw new Error(...)\<close> of the class is one constructor of
  \<open>error\<close>, named after its message, and a method that can throw returns
  \<open>error + 'a\<close> with \<open>Inl\<close> for the exception.
\<close>

type_synonym byte = "8 word"
type_synonym bytes = "byte list"
type_synonym jsstring = "16 word list"

datatype error =
    EpochNotNonNegInt \<comment> \<open>epochMs must be a non-negative integer\<close>
  | EpochExceeds48 \<comment> \<open>epochMs exceeds 48-bit range\<close>
  | SealEpochInvalid \<comment> \<open>epochMs must be a valid 48-bit non-negative integer\<close>
  | TooShort \<comment> \<open>TPSUID7RB: too short\<close>
  | BadMagic \<comment> \<open>TPSUID7RB: bad magic\<close>
  | UnsupportedVersion byte \<comment> \<open>TPSUID7RB: unsupported version\<close>
  | LengthOverflow \<comment> \<open>TPSUID7RB: length overflow\<close>
  | MissingPrefix \<comment> \<open>TPSUID7RB: missing prefix\<close>
  | U48NotSafeInteger \<comment> \<open>TPSUID7RB: u48 not safe integer\<close>
  | UvarintNotNonNegInt \<comment> \<open>uvarint must be non-negative int\<close>
  | UvarintOverflow \<comment> \<open>uvarint overflow\<close>
  | UvarintTooLarge \<comment> \<open>uvarint too large\<close>
  | UvarintTooLong \<comment> \<open>uvarint too long\<close>
  | CompressionNotAvailable \<comment> \<open>TPSUID7RB: compression not available\<close>
  | CompressionNotAvailableInBrowser
  | DecompressionFailed \<comment> \<open>TPSUID7RB: decompression failed\<close>
  | DecompressionNotAvailableInBrowser
  | NotSealed \<comment> \<open>TPSUID7RB: not a sealed UID\<close>
  | LengthOverflowTruncated \<comment> \<open>TPSUID7RB: length overflow (truncated)\<close>
  | MissingSignatureData \<comment> \<open>TPSUID7RB: missing signature data\<close>
  | UnsupportedSealType byte \<comment> \<open>TPSUID7RB: unsupported seal type\<close>
  | InvalidSignatureLength nat \<comment> \<open>TPSUID7RB: invalid Ed25519 signature length\<close>
  | SignatureVerificationFailed \<comment> \<open>TPSUID7RB: signature verification failed\<close>
  | SigningFailed \<comment> \<open>TPSUID7RB: signing failed (check key format)\<close>
  | SigningNotAvailableInBrowser
  | VerificationNotAvailableInBrowser
  | NoCryptoAvailable \<comment> \<open>TPSUID7RB: no crypto available\<close>
  | TPSUnrecognizedFormat \<comment> \<open>TPS: unrecognized format\<close>
  | TPSOnlyGregSupported \<comment> \<open>TPS: only T:greg.* parsing is supported\<close>
  | TPSMissingYear \<comment> \<open>TPS: missing year component\<close>
  | TPSFailedToComputeEpoch \<comment> \<open>TPS: failed to compute epochMs\<close>

subsection \<open>Binary helpers\<close>

text \<open>
  JavaScript's \<open>a << s\<close> converts \<open>a\<close> to a 32-bit integer and shifts it by the low
  five bits of \<open>s\<close>; \<open>|\<close> works on 32-bit integers; \<open>x >>> 0\<close> reads the 32 bits as an
  unsigned number.
\<close>

definition js_shl :: "32 word \<Rightarrow> nat \<Rightarrow> 32 word" where
  "js_shl a s = push_bit (s mod 32) a"

text \<open>\<open>uvarintEncode\<close>: the loop pushes seven bits at a time, low group first.\<close>

function uvarintEncode_loop :: "32 word \<Rightarrow> bytes \<Rightarrow> bytes" where
  "uvarintEncode_loop x out =
     (if x \<ge> 0x80
      then uvarintEncode_loop (drop_bit 7 x) (out @ [ucast ((x AND 0x7f) OR 0x80)])
      else out @ [ucast x])"
  by pat_completeness auto
termination
proof (relation "measure (\<lambda>(x, out). unat x)")
  show "wf (measure (\<lambda>(x :: 32 word, out :: bytes). unat x))" by simp
next
  fix x :: "32 word" and out :: bytes
  assume "0x80 \<le> x"
  then have "128 \<le> unat x" by (simp add: word_le_nat_alt)
  then have "unat x div 128 < unat x" by simp
  then show "((drop_bit 7 x, out @ [ucast ((x AND 0x7f) OR 0x80)]), (x, out))
      \<in> measure (\<lambda>(x, out). unat x)"
    by (simp add: drop_bit_eq_div unat_div)
qed

declare uvarintEncode_loop.simps [simp del]

text \<open>The argument is a number; \<open>n >>> 0\<close> keeps its low 32 bits.\<close>

definition uvarintEncode :: "int \<Rightarrow> error + bytes" where
  "uvarintEncode n =
     (if n < 0 then Inl UvarintNotNonNegInt
      else Inr (uvarintEncode_loop (word_of_int n) []))"

text \<open>
  \<open>uvarintDecode\<close>: \<open>x\<close> is the 32-bit accumulator, \<open>s\<close> the shift and \<open>i\<close> the number
  of bytes consumed so far. The result is \<open>(value, bytesRead)\<close>.
\<close>

function uvarintDecode_loop ::
  "bytes \<Rightarrow> nat \<Rightarrow> 32 word \<Rightarrow> nat \<Rightarrow> nat \<Rightarrow> error + (nat \<times> nat)" where
  "uvarintDecode_loop bs offset x s i =
     (if offset + i \<ge> length bs then Inl UvarintOverflow
      else
        let b = bs ! (offset + i) in
        if b < 0x80 then
          (if i > 9 \<or> (i = 9 \<and> b > 1) then Inl UvarintTooLarge
           else Inr (unat (x OR js_shl (ucast b) s), i + 1))
        else
          (if i + 1 > 10 then Inl UvarintTooLong
           else uvarintDecode_loop bs offset (x OR js_shl (ucast (b AND 0x7f)) s) (s + 7) (i + 1)))"
  by pat_completeness auto
termination
  by (relation "measure (\<lambda>(bs, offset, x, s, i). length bs - (offset + i))") auto

declare uvarintDecode_loop.simps [simp del]

definition uvarintDecode :: "bytes \<Rightarrow> nat \<Rightarrow> error + (nat \<times> nat)" where
  "uvarintDecode bs offset = uvarintDecode_loop bs offset 0 0 0"

text \<open>
  \<open>writeU48\<close> goes through \<open>BigInt\<close>: \<open>(v >> k) & 0xff\<close> on an unbounded integer.
\<close>

definition writeU48 :: "int \<Rightarrow> bytes" where
  "writeU48 v =
     [word_of_int (drop_bit 40 v AND 0xff), word_of_int (drop_bit 32 v AND 0xff),
      word_of_int (drop_bit 24 v AND 0xff), word_of_int (drop_bit 16 v AND 0xff),
      word_of_int (drop_bit 8 v AND 0xff), word_of_int (v AND 0xff)]"

text \<open>
  \<open>readU48\<close> is only called with six bytes in range (the caller checks the length
  first); \<open>BigInt(undefined)\<close> would be a TypeError, which the model reports as
  \<open>TooShort\<close>. \<open>Number.isSafeInteger\<close> is \<open>\<bar>n\<bar> \<le> 2^53 - 1\<close>.
\<close>

definition readU48 :: "bytes \<Rightarrow> nat \<Rightarrow> error + int" where
  "readU48 bs offset =
     (if offset + 6 > length bs then Inl TooShort
      else
        let v = push_bit 40 (uint (bs ! offset)) + push_bit 32 (uint (bs ! (offset + 1)))
              + push_bit 24 (uint (bs ! (offset + 2))) + push_bit 16 (uint (bs ! (offset + 3)))
              + push_bit 8 (uint (bs ! (offset + 4))) + uint (bs ! (offset + 5))
        in if v > 2 ^ 53 - 1 then Inl U48NotSafeInteger else Inr v)"

text \<open>\<open>bytes.slice(a, b)\<close> for \<open>a \<le> b\<close>.\<close>

definition slice_of :: "'a list \<Rightarrow> nat \<Rightarrow> nat \<Rightarrow> 'a list" where
  "slice_of xs a b = take (b - a) (drop a xs)"

subsection \<open>Strings\<close>

text \<open>An ASCII literal of the source as a list of code units.\<close>

definition js :: "string \<Rightarrow> jsstring" where
  "js cs = map (\<lambda>c. of_nat (of_char c)) cs"

text \<open>
  \<open>String.prototype.trim\<close> removes the code units of ECMAScript's WhiteSpace and
  LineTerminator productions from both ends.
\<close>

definition is_js_space :: "16 word \<Rightarrow> bool" where
  "is_js_space u =
     (u \<in> set [0x9, 0xA, 0xB, 0xC, 0xD, 0x20, 0xA0, 0x1680, 0x2028, 0x2029, 0x202F,
                0x205F, 0x3000, 0xFEFF]
      \<or> (0x2000 \<le> u \<and> u \<le> 0x200A))"

definition trim :: "jsstring \<Rightarrow> jsstring" where
  "trim s = rev (dropWhile is_js_space (rev (dropWhile is_js_space s)))"

definition startsWith :: "jsstring \<Rightarrow> jsstring \<Rightarrow> bool" where
  "startsWith s p = (take (length p) s = p)"

subsection \<open>TextEncoder and TextDecoder\<close>

text \<open>
  \<open>new TextEncoder().encode(s)\<close> first converts the string to scalar values, an
  unpaired surrogate becoming U+FFFD, then writes each scalar value in UTF-8.
\<close>

definition is_high_surrogate :: "16 word \<Rightarrow> bool" where
  "is_high_surrogate u = (0xD800 \<le> u \<and> u \<le> 0xDBFF)"

definition is_low_surrogate :: "16 word \<Rightarrow> bool" where
  "is_low_surrogate u = (0xDC00 \<le> u \<and> u \<le> 0xDFFF)"

fun scalar_values :: "jsstring \<Rightarrow> nat list" where
  "scalar_values [] = []"
| "scalar_values [u] = [if is_high_surrogate u \<or> is_low_surrogate u then 0xFFFD else unat u]"
| "scalar_values (u # v # rest) =
     (if is_high_surrogate u \<and> is_low_surrogate v
      then (0x10000 + (unat u - 0xD800) * 0x400 + (unat v - 0xDC00)) # scalar_values rest
      else (if is_high_surrogate u \<or> is_low_surrogate u then 0xFFFD else unat u)
           # scalar_values (v # rest))"

definition utf8_encode_scalar :: "nat \<Rightarrow> bytes" where
  "utf8_encode_scalar c =
     (if c < 0x80 then [of_nat c]
      else if c < 0x800 then [of_nat (0xC0 + c div 0x40), of_nat (0x80 + c mod 0x40)]
      else if c < 0x10000 then
        [of_nat (0xE0 + c div 0x1000), of_nat (0x80 + c div 0x40 mod 0x40),
         of_nat (0x80 + c mod 0x40)]
      else
        [of_nat (0xF0 + c div 0x40000), of_nat (0x80 + c div 0x1000 mod 0x40),
         of_nat (0x80 + c div 0x40 mod 0x40), of_nat (0x80 + c mod 0x40)])"

definition TextEncoder_encode :: "jsstring \<Rightarrow> bytes" where
  "TextEncoder_encode s = concat (map utf8_encode_scalar (scalar_values s))"

text \<open>
  \<open>new TextDecoder().decode(bytes)\<close> runs the UTF-8 decoder of the Encoding Standard in
  replacement mode: it never throws, and every malformed sequence yields U+FFFD. The
  arguments are the decoder's state: code point, bytes seen, bytes needed, lower and upper
  boundary. A byte outside the boundaries ends the sequence with U+FFFD and is read again
  as the start of the next one.
\<close>

function utf8_decoder :: "nat \<Rightarrow> nat \<Rightarrow> nat \<Rightarrow> nat \<Rightarrow> nat \<Rightarrow> bytes \<Rightarrow> nat list" where
  "utf8_decoder cp seen needed lo hi [] = (if needed \<noteq> 0 then [0xFFFD] else [])"
| "utf8_decoder cp seen needed lo hi (b # bs) =
     (let v = unat b in
      if needed = 0 then
        (if v \<le> 0x7F then v # utf8_decoder 0 0 0 0x80 0xBF bs
         else if 0xC2 \<le> v \<and> v \<le> 0xDF then utf8_decoder (v mod 0x20) 0 1 0x80 0xBF bs
         else if 0xE0 \<le> v \<and> v \<le> 0xEF then
           utf8_decoder (v mod 0x10) 0 2 (if v = 0xE0 then 0xA0 else 0x80)
             (if v = 0xED then 0x9F else 0xBF) bs
         else if 0xF0 \<le> v \<and> v \<le> 0xF4 then
           utf8_decoder (v mod 8) 0 3 (if v = 0xF0 then 0x90 else 0x80)
             (if v = 0xF4 then 0x8F else 0xBF) bs
         else 0xFFFD # utf8_decoder 0 0 0 0x80 0xBF bs)
      else if v < lo \<or> hi < v then 0xFFFD # utf8_decoder 0 0 0 0x80 0xBF (b # bs)
      else
        (let cp' = cp * 0x40 + v mod 0x40 in
         if seen + 1 \<noteq> needed then utf8_decoder cp' (seen + 1) needed 0x80 0xBF bs
         else cp' # utf8_decoder 0 0 0 0x80 0xBF bs))"
  by pat_completeness auto
termination
  by (relation "measure (\<lambda>(cp, seen, needed, lo, hi, bs).
        2 * length bs + (if needed = 0 then 0 else 1))") auto

text \<open>A scalar value as UTF-16 code units.\<close>

definition utf16_encode_scalar :: "nat \<Rightarrow> jsstring" where
  "utf16_encode_scalar c =
     (if c < 0x10000 then [of_nat c]
      else [of_nat (0xD800 + (c - 0x10000) div 0x400), of_nat (0xDC00 + (c - 0x10000) mod 0x400)])"

text \<open>
  The decoder is constructed without options, so \<open>ignoreBOM\<close> is false: when the first
  decoded scalar value is U+FEFF it is dropped from the output.
\<close>

fun strip_bom :: "nat list \<Rightarrow> nat list" where
  "strip_bom [] = []"
| "strip_bom (c # cs) = (if c = 0xFEFF then cs else c # cs)"

definition TextDecoder_decode :: "bytes \<Rightarrow> jsstring" where
  "TextDecoder_decode bs =
     concat (map utf16_encode_scalar (strip_bom (utf8_decoder 0 0 0 0x80 0xBF bs)))"

subsection \<open>The platform\<close>

text \<open>
  The class calls into the runtime for randomness, compression and signatures, each behind
  \<open>typeof require !== 'undefined'\<close> and a \<open>try\<close>. A \<open>platform\<close> value holds what the
  runtime answers during one call of a public method; \<open>None\<close> stands for a call that
  throws. \<open>entropy\<close> is the sequence of bytes the random generator delivers.
\<close>

datatype key = KeyString jsstring | KeyBytes bytes | KeyObject nat

record platform =
  has_require :: bool
  node_randomBytes_ok :: bool
  web_getRandomValues_ok :: bool
  entropy :: "nat \<Rightarrow> byte"
  zlib_deflateRawSync :: "bytes \<Rightarrow> bytes option"
  zlib_inflateRawSync :: "bytes \<Rightarrow> bytes option"
  createPrivateKey_der :: "bytes \<Rightarrow> key option"
  createPrivateKey_pem_hex :: "jsstring \<Rightarrow> key option"
  crypto_sign :: "bytes \<Rightarrow> key \<Rightarrow> bytes option"
  crypto_verify :: "bytes \<Rightarrow> key \<Rightarrow> bytes \<Rightarrow> bool option"

definition randomBytes :: "platform \<Rightarrow> nat \<Rightarrow> error + bytes" where
  "randomBytes P n =
     (if has_require P \<and> node_randomBytes_ok P then Inr (map (entropy P) [0..<n])
      else if web_getRandomValues_ok P then Inr (map (entropy P) [0..<n])
      else Inl NoCryptoAvailable)"

definition deflateRaw :: "platform \<Rightarrow> bytes \<Rightarrow> error + bytes" where
  "deflateRaw P data =
     (if has_require P then
        (case zlib_deflateRawSync P data of
           Some z \<Rightarrow> Inr z
         | None \<Rightarrow> Inl CompressionNotAvailable)
      else Inl CompressionNotAvailableInBrowser)"

definition inflateRaw :: "platform \<Rightarrow> bytes \<Rightarrow> error + bytes" where
  "inflateRaw P data =
     (if has_require P then
        (case zlib_inflateRawSync P data of
           Some z \<Rightarrow> Inr z
         | None \<Rightarrow> Inl DecompressionFailed)
      else Inl DecompressionNotAvailableInBrowser)"

subsection \<open>Dates\<close>

text \<open>
  A \<open>Date\<close> is its time value, an integer number of milliseconds. Day numbers and civil
  dates of the proleptic Gregorian calendar are converted with the closed formulas over
  400-year eras; all divisions round down.
\<close>

definition msPerDay :: int where
  "msPerDay = 86400000"

definition days_from_civil :: "int \<Rightarrow> int \<Rightarrow> int \<Rightarrow> int" where
  "days_from_civil y m d =
     (let y' = (if m \<le> 2 then y - 1 else y);
          era = y' div 400;
          yoe = y' - era * 400;
          doy = (153 * (if m > 2 then m - 3 else m + 9) + 2) div 5 + d - 1;
          doe = yoe * 365 + yoe div 4 - yoe div 100 + doy
      in era * 146097 + doe - 719468)"

definition civil_from_days :: "int \<Rightarrow> int \<times> int \<times> int" where
  "civil_from_days z0 =
     (let z = z0 + 719468;
          era = z div 146097;
          doe = z - era * 146097;
          yoe = (doe - doe div 1460 + doe div 36524 - doe div 146096) div 365;
          doy = doe - (365 * yoe + yoe div 4 - yoe div 100);
          mp = (5 * doy + 2) div 153;
          d = doy - (153 * mp + 2) div 5 + 1;
          m = (if mp < 10 then mp + 3 else mp - 9)
      in (yoe + era * 400 + (if m \<le> 2 then 1 else 0), m, d))"

definition getUTCFullYear :: "int \<Rightarrow> int" where
  "getUTCFullYear t = fst (civil_from_days (t div msPerDay))"

definition getUTCMonth :: "int \<Rightarrow> int" where
  "getUTCMonth t = fst (snd (civil_from_days (t div msPerDay))) - 1"

definition getUTCDate :: "int \<Rightarrow> int" where
  "getUTCDate t = snd (snd (civil_from_days (t div msPerDay)))"

definition getUTCHours :: "int \<Rightarrow> int" where
  "getUTCHours t = (t div 3600000) mod 24"

definition getUTCMinutes :: "int \<Rightarrow> int" where
  "getUTCMinutes t = (t div 60000) mod 60"

definition getUTCSeconds :: "int \<Rightarrow> int" where
  "getUTCSeconds t = (t div 1000) mod 60"

text \<open>
  \<open>Date.UTC(year, month, day, hour, minute, second)\<close>: a year from 0 to 99 means
  1900 + year, months beyond a year carry into the year, and a time value beyond
  8.64e15 in magnitude is NaN (\<open>None\<close>).
\<close>

definition Date_UTC :: "int \<Rightarrow> int \<Rightarrow> int \<Rightarrow> int \<Rightarrow> int \<Rightarrow> int \<Rightarrow> int option" where
  "Date_UTC year month day hour minute second =
     (let yr = (if 0 \<le> year \<and> year \<le> 99 then 1900 + year else year);
          ym = yr + month div 12;
          mn = month mod 12;
          dy = days_from_civil ym (mn + 1) 1 + day - 1;
          tv = dy * msPerDay + hour * 3600000 + minute * 60000 + second * 1000
      in if \<bar>tv\<bar> > 8640000000000000 then None else Some tv)"

subsection \<open>TPS string helpers\<close>

definition is_digit :: "16 word \<Rightarrow> bool" where
  "is_digit u = (0x30 \<le> u \<and> u \<le> 0x39)"

text \<open>
  The regular expressions \<open>/\.m(-?\d+)/\<close>, \<open>/\.c(\d+)/\<close>, \<open>/\.y(\d{1,4})/\<close> and
  \<open>/\.M(\d{1,2})/\<close> to \<open>/\.s(\d{1,2})/\<close> have one shape: a dot, a letter, an optional
  minus sign (only for \<open>m\<close>) and a greedy run of digits, bounded or not. \<open>match_here\<close>
  matches at the head of the string and returns the capture group; \<open>match_field\<close> is
  \<open>String.prototype.match\<close>, the leftmost match.
\<close>

definition match_here :: "16 word \<Rightarrow> bool \<Rightarrow> nat option \<Rightarrow> jsstring \<Rightarrow> jsstring option" where
  "match_here letter sgn_ok bound s =
     (case s of
        dot # l # rest \<Rightarrow>
          if dot = 0x2E \<and> l = letter then
            (let signed = (sgn_ok \<and> rest \<noteq> [] \<and> hd rest = 0x2D);
                 ds = takeWhile is_digit (if signed then tl rest else rest);
                 ds' = (case bound of None \<Rightarrow> ds | Some k \<Rightarrow> take k ds)
             in if ds = [] then None else Some ((if signed then [0x2D] else []) @ ds'))
          else None
      | _ \<Rightarrow> None)"

fun match_field :: "16 word \<Rightarrow> bool \<Rightarrow> nat option \<Rightarrow> jsstring \<Rightarrow> jsstring option" where
  "match_field letter sgn_ok bound [] = None"
| "match_field letter sgn_ok bound (u # us) =
     (case match_here letter sgn_ok bound (u # us) of
        Some cap \<Rightarrow> Some cap
      | None \<Rightarrow> match_field letter sgn_ok bound us)"

text \<open>
  Numbers are IEEE 754 doubles. Every number that \<open>epochMsFromTPSString\<close> computes with
  is an integer, an infinity or NaN, and the function only asks at the end whether the
  result is finite; such a number is modelled as an \<open>int option\<close>, \<open>None\<close> for the values
  that are not finite. \<open>to_double\<close> rounds an integer to the nearest double, ties to the
  even significand of 53 bits, and overflows to an infinity from \<open>2^1024 - 2^970\<close>.
  Sums, differences and products of doubles are the rounded exact results, and not finite
  as soon as an operand is not finite.
\<close>

fun bit_length :: "nat \<Rightarrow> nat" where
  "bit_length n = (if n = 0 then 0 else Suc (bit_length (n div 2)))"

declare bit_length.simps [simp del]

definition to_double :: "int \<Rightarrow> int option" where
  "to_double n =
     (let a = \<bar>n\<bar> in
      if a < 2 ^ 53 then Some n
      else
        let e = bit_length (nat a) - 53;
            q = a div 2 ^ e;
            r = a mod 2 ^ e;
            q' = (if 2 * r > 2 ^ e \<or> (2 * r = 2 ^ e \<and> odd q) then q + 1 else q)
        in if q' * 2 ^ e \<ge> 2 ^ 1024 then None else Some (sgn n * (q' * 2 ^ e)))"

definition num_add :: "int option \<Rightarrow> int option \<Rightarrow> int option" where
  "num_add x y = Option.bind x (\<lambda>a. Option.bind y (\<lambda>b. to_double (a + b)))"

definition num_sub :: "int option \<Rightarrow> int option \<Rightarrow> int option" where
  "num_sub x y = Option.bind x (\<lambda>a. Option.bind y (\<lambda>b. to_double (a - b)))"

definition num_mul :: "int option \<Rightarrow> int option \<Rightarrow> int option" where
  "num_mul x y = Option.bind x (\<lambda>a. Option.bind y (\<lambda>b. to_double (a * b)))"

text \<open>
  \<open>parseInt(cap, 10)\<close> on a capture group, an optional minus sign and digits: the double
  nearest to the integer that the digits denote.
\<close>

definition parseInt :: "jsstring \<Rightarrow> int option" where
  "parseInt cap =
     (let neg = (cap \<noteq> [] \<and> hd cap = 0x2D);
          ds = (if neg then tl cap else cap);
          n = foldl (\<lambda>a d. 10 * a + (uint d - 0x30)) 0 ds
      in to_double (if neg then - n else n))"

text \<open>
  \<open>Date.UTC\<close> of numbers: NaN (\<open>None\<close>) when an argument is not finite.
\<close>

definition Date_UTC_of :: "int option \<Rightarrow> int option \<Rightarrow> int option \<Rightarrow> int option \<Rightarrow> int option
    \<Rightarrow> int option \<Rightarrow> int option" where
  "Date_UTC_of year month day hour minute second =
     (case (year, month, day, hour, minute, second) of
        (Some y, Some mo, Some d, Some h, Some mi, Some s) \<Rightarrow> Date_UTC y mo d h mi s
      | _ \<Rightarrow> None)"

definition epochMsFromTPSString :: "jsstring \<Rightarrow> error + int" where
  "epochMsFromTPSString tps =
     (case (if 0x40 \<in> set tps then Inr (trim (drop 1 (dropWhile (\<lambda>u. u \<noteq> 0x40) tps)))
            else if startsWith tps (js ''T:'') then Inr tps
            else Inl TPSUnrecognizedFormat) of
        Inl e \<Rightarrow> Inl e
      | Inr time \<Rightarrow>
          if \<not> startsWith time (js ''T:greg.'') then Inl TPSOnlyGregSupported
          else
            let mMatch = match_field 0x6D True None time;
                cMatch = match_field 0x63 False None time;
                yMatch = match_field 0x79 False (Some 4) time;
                MMatch = match_field 0x4D False (Some 2) time;
                dMatch = match_field 0x64 False (Some 2) time;
                hMatch = match_field 0x68 False (Some 2) time;
                nMatch = match_field 0x6E False (Some 2) time;
                sMatch = match_field 0x73 False (Some 2) time
            in
            case (case (mMatch, cMatch, yMatch) of
                    (Some m, Some c, Some y) \<Rightarrow>
                      (let millennium = parseInt m;
                           century = parseInt c;
                           year = parseInt y
                       in Inr (num_add (num_add (num_mul (num_sub millennium (Some 1)) (Some 1000))
                                                (num_mul (num_sub century (Some 1)) (Some 100)))
                                       year))
                  | (_, _, Some y) \<Rightarrow>
                      (case parseInt y of
                         Some year \<Rightarrow>
                           Inr (if year < 100
                                then (if year \<le> 69 then num_add (Some 2000) (Some year)
                                      else num_add (Some 1900) (Some year))
                                else Some year)
                       | None \<Rightarrow> Inr None)
                  | (_, _, None) \<Rightarrow> Inl TPSMissingYear) of
              Inl e \<Rightarrow> Inl e
            | Inr fullYear \<Rightarrow>
                let month = (case MMatch of Some c \<Rightarrow> parseInt c | None \<Rightarrow> Some 1);
                    day = (case dMatch of Some c \<Rightarrow> parseInt c | None \<Rightarrow> Some 1);
                    hour = (case hMatch of Some c \<Rightarrow> parseInt c | None \<Rightarrow> Some 0);
                    minute = (case nMatch of Some c \<Rightarrow> parseInt c | None \<Rightarrow> Some 0);
                    second = (case sMatch of Some c \<Rightarrow> parseInt c | None \<Rightarrow> Some 0)
                in case Date_UTC_of fullYear (num_sub month (Some 1)) day hour minute second of
                     None \<Rightarrow> Inl TPSFailedToComputeEpoch
                   | Some epoch \<Rightarrow> Inr epoch)"

subsection \<open>encodeBinary and decodeBinary\<close>

text \<open>
  A JavaScript number handed in as \<open>epochMs\<close> is a finite value or one of NaN and the
  infinities. \<open>Number.isInteger\<close> holds of the finite values without fractional part.
\<close>

datatype number = Num real | NaN | PosInfinity | NegInfinity

fun Number_isInteger :: "number \<Rightarrow> bool" where
  "Number_isInteger (Num r) = (of_int \<lfloor>r\<rfloor> = r)"
| "Number_isInteger _ = False"

fun number_less :: "number \<Rightarrow> real \<Rightarrow> bool" where
  "number_less (Num r) c = (r < c)"
| "number_less NegInfinity c = True"
| "number_less _ c = False"

fun number_greater :: "number \<Rightarrow> real \<Rightarrow> bool" where
  "number_greater (Num r) c = (r > c)"
| "number_greater PosInfinity c = True"
| "number_greater _ c = False"

fun BigInt :: "number \<Rightarrow> int" where
  "BigInt (Num r) = \<lfloor>r\<rfloor>"
| "BigInt _ = 0"

text \<open>
  \<open>TPSUID7RBEncodeOptions\<close>; an absent \<open>opts\<close> is the record with both fields absent.
\<close>

record encode_options =
  opt_compress :: "bool option"
  opt_epochMs :: "number option"

record decode_result =
  version :: jsstring
  epochMs :: int
  compressed :: bool
  nonce :: nat
  tps :: jsstring

definition MAGIC :: bytes where
  "MAGIC = [0x54, 0x50, 0x55, 0x37]"

definition VER :: byte where
  "VER = 0x01"

definition PREFIX :: jsstring where
  "PREFIX = js ''tpsuid7rb_''"

text \<open>
  \<open>opts?.epochMs ?? this.epochMsFromTPSString(tps)\<close>: the string is parsed only when no
  value was handed in.
\<close>

definition resolve_epochMs :: "jsstring \<Rightarrow> encode_options \<Rightarrow> error + number" where
  "resolve_epochMs tps' opts =
     (case opt_epochMs opts of
        Some n \<Rightarrow> Inr n
      | None \<Rightarrow>
          (case epochMsFromTPSString tps' of
             Inl e \<Rightarrow> Inl e
           | Inr t \<Rightarrow> Inr (Num (of_int t))))"

text \<open>
  The output buffer is filled field by field at increasing offsets, each field directly
  after the one before: the result is the concatenation of the fields. Local variables
  that share a name with a field of the result carry a prime. The variable \<open>nonce\<close> that \<open>encodeBinary\<close> computes from the random bytes is not used.
\<close>

definition encodeBinary :: "platform \<Rightarrow> jsstring \<Rightarrow> encode_options \<Rightarrow> error + bytes" where
  "encodeBinary P tps' opts =
     (let compress = (case opt_compress opts of Some c \<Rightarrow> c | None \<Rightarrow> False) in
      case resolve_epochMs tps' opts of
        Inl e \<Rightarrow> Inl e
      | Inr epochMs' \<Rightarrow>
          if \<not> Number_isInteger epochMs' \<or> number_less epochMs' 0 then Inl EpochNotNonNegInt
          else if number_greater epochMs' 0xffffffffffff then Inl EpochExceeds48
          else
            let flags = (if compress then 0x01 else 0x00 :: byte) in
            case randomBytes P 4 of
              Inl e \<Rightarrow> Inl e
            | Inr nonceBuf \<Rightarrow>
                let tpsUtf8 = TextEncoder_encode tps' in
                case (if compress then deflateRaw P tpsUtf8 else Inr tpsUtf8) of
                  Inl e \<Rightarrow> Inl e
                | Inr payload \<Rightarrow>
                    (case uvarintEncode (int (length payload)) of
                       Inl e \<Rightarrow> Inl e
                     | Inr lenVar \<Rightarrow>
                         Inr (MAGIC @ [VER] @ [flags] @ writeU48 (BigInt epochMs') @ nonceBuf
                              @ lenVar @ payload)))"

text \<open>The four nonce bytes as the number that \<open>decodeBinary\<close> returns.\<close>

definition nonce_value :: "bytes \<Rightarrow> nat" where
  "nonce_value nb = unat (js_shl (ucast (nb ! 0)) 24) + unat (js_shl (ucast (nb ! 1)) 16)
                  + unat (js_shl (ucast (nb ! 2)) 8) + unat (nb ! 3)"

definition decodeBinary :: "platform \<Rightarrow> bytes \<Rightarrow> error + decode_result" where
  "decodeBinary P bs =
     (if length bs < 17 then Inl TooShort
      else if bs ! 0 \<noteq> 0x54 \<or> bs ! 1 \<noteq> 0x50 \<or> bs ! 2 \<noteq> 0x55 \<or> bs ! 3 \<noteq> 0x37 then Inl BadMagic
      else
        let ver = bs ! 4 in
        if ver \<noteq> VER then Inl (UnsupportedVersion ver)
        else
          let flags = bs ! 5;
              compressed' = (flags AND 0x01 = 0x01)
          in
          case readU48 bs 6 of
            Inl e \<Rightarrow> Inl e
          | Inr epochMs' \<Rightarrow>
              let nonce' = unat (js_shl (ucast (bs ! 12)) 24) + unat (js_shl (ucast (bs ! 13)) 16)
                        + unat (js_shl (ucast (bs ! 14)) 8) + unat (bs ! 15)
              in
              case uvarintDecode bs 16 of
                Inl e \<Rightarrow> Inl e
              | Inr (tpsLen, bytesRead) \<Rightarrow>
                  let offset = 16 + bytesRead in
                  if offset + tpsLen > length bs then Inl LengthOverflow
                  else
                    let payload = slice_of bs offset (offset + tpsLen) in
                    case (if compressed' then inflateRaw P payload else Inr payload) of
                      Inl e \<Rightarrow> Inl e
                    | Inr tpsUtf8 \<Rightarrow>
                        Inr \<lparr>version = js ''tpsuid7rb'', epochMs = epochMs',
                             compressed = compressed', nonce = nonce',
                             tps = TextDecoder_decode tpsUtf8\<rparr>)"

subsection \<open>Base64url\<close>

text \<open>
  The model follows the Node.js branch of the two helpers
  (\<open>typeof Buffer !== 'undefined'\<close>). \<open>Buffer.from(bytes).toString('base64')\<close> writes
  six bits per character, the last group padded with zero bits, and pads the text with
  \<open>=\<close> to a multiple of four characters.
\<close>

definition b64_char :: "nat \<Rightarrow> 16 word" where
  "b64_char n =
     (if n < 26 then of_nat (0x41 + n)
      else if n < 52 then of_nat (0x61 + (n - 26))
      else if n < 62 then of_nat (0x30 + (n - 52))
      else if n = 62 then 0x2B
      else 0x2F)"

fun sextets :: "bytes \<Rightarrow> nat list" where
  "sextets (a # b # c # rest) =
     [unat a div 4, unat a mod 4 * 16 + unat b div 16, unat b mod 16 * 4 + unat c div 64,
      unat c mod 64] @ sextets rest"
| "sextets [a, b] = [unat a div 4, unat a mod 4 * 16 + unat b div 16, unat b mod 16 * 4]"
| "sextets [a] = [unat a div 4, unat a mod 4 * 16]"
| "sextets [] = []"

definition toString_base64 :: "bytes \<Rightarrow> jsstring" where
  "toString_base64 bs =
     map b64_char (sextets bs) @ replicate ((3 - length bs mod 3) mod 3) 0x3D"

text \<open>
  \<open>.replace(/\+/g, '-').replace(/\//g, '_').replace(/=+$/g, '')\<close>.
\<close>

definition replace_all :: "16 word \<Rightarrow> 16 word \<Rightarrow> jsstring \<Rightarrow> jsstring" where
  "replace_all a b s = map (\<lambda>u. if u = a then b else u) s"

definition strip_trailing :: "16 word \<Rightarrow> jsstring \<Rightarrow> jsstring" where
  "strip_trailing a s = rev (dropWhile (\<lambda>u. u = a) (rev s))"

definition base64UrlEncode :: "bytes \<Rightarrow> jsstring" where
  "base64UrlEncode bs =
     strip_trailing 0x3D (replace_all 0x2F 0x5F (replace_all 0x2B 0x2D (toString_base64 bs)))"

text \<open>
  \<open>Buffer.from(b64, 'base64')\<close> is lenient: it reads the low eight bits of every code
  unit, accepts both alphabets, skips every character outside them and stops at the first
  \<open>=\<close>; an incomplete last group yields the bytes that are complete.
\<close>

definition unbase64 :: "16 word \<Rightarrow> nat option" where
  "unbase64 u =
     (if 0x41 \<le> u \<and> u \<le> 0x5A then Some (unat u - 0x41)
      else if 0x61 \<le> u \<and> u \<le> 0x7A then Some (unat u - 0x61 + 26)
      else if 0x30 \<le> u \<and> u \<le> 0x39 then Some (unat u - 0x30 + 52)
      else if u = 0x2B \<or> u = 0x2D then Some 62
      else if u = 0x2F \<or> u = 0x5F then Some 63
      else None)"

fun b64_sextets :: "jsstring \<Rightarrow> nat list" where
  "b64_sextets [] = []"
| "b64_sextets (u # us) =
     (let c = u AND 0xFF in
      if c = 0x3D then []
      else case unbase64 c of
             Some v \<Rightarrow> v # b64_sextets us
           | None \<Rightarrow> b64_sextets us)"

fun b64_bytes :: "nat list \<Rightarrow> bytes" where
  "b64_bytes (a # b # c # d # rest) =
     [of_nat (a * 4 + b div 16), of_nat (b mod 16 * 16 + c div 4), of_nat (c mod 4 * 64 + d)]
     @ b64_bytes rest"
| "b64_bytes [a, b, c] = [of_nat (a * 4 + b div 16), of_nat (b mod 16 * 16 + c div 4)]"
| "b64_bytes [a, b] = [of_nat (a * 4 + b div 16)]"
| "b64_bytes [a] = []"
| "b64_bytes [] = []"

definition Buffer_from_base64 :: "jsstring \<Rightarrow> bytes" where
  "Buffer_from_base64 s = b64_bytes (b64_sextets s)"

definition base64UrlDecode :: "jsstring \<Rightarrow> bytes" where
  "base64UrlDecode b64url =
     (let padLen = (4 - length b64url mod 4) mod 4;
          b64 = replace_all 0x5F 0x2F (replace_all 0x2D 0x2B (b64url @ replicate padLen 0x3D))
      in Buffer_from_base64 b64)"

subsection \<open>The text form\<close>

definition encodeBinaryB64 :: "platform \<Rightarrow> jsstring \<Rightarrow> encode_options \<Rightarrow> error + jsstring" where
  "encodeBinaryB64 P tps' opts =
     (case encodeBinary P tps' opts of
        Inl e \<Rightarrow> Inl e
      | Inr bs \<Rightarrow> Inr (PREFIX @ base64UrlEncode bs))"

definition decodeBinaryB64 :: "platform \<Rightarrow> jsstring \<Rightarrow> error + decode_result" where
  "decodeBinaryB64 P ident =
     (let s = trim ident in
      if \<not> startsWith s PREFIX then Inl MissingPrefix
      else
        let b64 = drop (length PREFIX) s;
            bs = base64UrlDecode b64
        in decodeBinary P bs)"

text \<open>
  Regular expressions over code units, matched by derivatives. \<open>regex_test r s\<close> is
  \<open>r.test(s)\<close> for an expression anchored at both ends and without flags, as
  \<open>REGEX = /^tpsuid7rb_[A-Za-z0-9_-]+$/\<close> is. A character class is a list of ranges.
\<close>

datatype regex =
    Never
  | Empty
  | Class "(16 word \<times> 16 word) list"
  | Alt regex regex
  | Seq regex regex
  | Star regex

definition in_class :: "(16 word \<times> 16 word) list \<Rightarrow> 16 word \<Rightarrow> bool" where
  "in_class rs u = list_ex (\<lambda>(lo, hi). lo \<le> u \<and> u \<le> hi) rs"

fun nullable :: "regex \<Rightarrow> bool" where
  "nullable Never = False"
| "nullable Empty = True"
| "nullable (Class rs) = False"
| "nullable (Alt r1 r2) = (nullable r1 \<or> nullable r2)"
| "nullable (Seq r1 r2) = (nullable r1 \<and> nullable r2)"
| "nullable (Star r) = True"

fun deriv :: "16 word \<Rightarrow> regex \<Rightarrow> regex" where
  "deriv u Never = Never"
| "deriv u Empty = Never"
| "deriv u (Class rs) = (if in_class rs u then Empty else Never)"
| "deriv u (Alt r1 r2) = Alt (deriv u r1) (deriv u r2)"
| "deriv u (Seq r1 r2) =
     (if nullable r1 then Alt (Seq (deriv u r1) r2) (deriv u r2) else Seq (deriv u r1) r2)"
| "deriv u (Star r) = Seq (deriv u r) (Star r)"

definition regex_test :: "regex \<Rightarrow> jsstring \<Rightarrow> bool" where
  "regex_test r s = nullable (foldl (\<lambda>r' u. deriv u r') r s)"

definition Lit :: "jsstring \<Rightarrow> regex" where
  "Lit s = foldr (\<lambda>u r. Seq (Class [(u, u)]) r) s Empty"

definition Plus :: "regex \<Rightarrow> regex" where
  "Plus r = Seq r (Star r)"

definition REGEX :: regex where
  "REGEX = Seq (Lit (js ''tpsuid7rb_''))
             (Plus (Class [(0x41, 0x5A), (0x61, 0x7A), (0x30, 0x39), (0x5F, 0x5F), (0x2D, 0x2D)]))"

definition validateBinaryB64 :: "jsstring \<Rightarrow> bool" where
  "validateBinaryB64 ident = regex_test REGEX (trim ident)"

subsection \<open>generate\<close>

text \<open>
  \<open>num.toString()\<close> of an integer, and \<open>padStart(2, '0')\<close>.
\<close>

fun digits :: "nat \<Rightarrow> jsstring" where
  "digits n = (if n < 10 then [of_nat (0x30 + n)] else digits (n div 10) @ [of_nat (0x30 + n mod 10)])"

declare digits.simps [simp del]

definition Number_toString :: "int \<Rightarrow> jsstring" where
  "Number_toString i = (if i < 0 then 0x2D # digits (nat (- i)) else digits (nat i))"

definition pad :: "int \<Rightarrow> jsstring" where
  "pad num = (let t = Number_toString num in replicate (2 - length t) 0x30 @ t)"

text \<open>JavaScript's \<open>%\<close> takes the sign of the dividend.\<close>

definition js_rem :: "int \<Rightarrow> int \<Rightarrow> int" where
  "js_rem a b = sgn a * (\<bar>a\<bar> mod \<bar>b\<bar>)"

text \<open>
  The options of \<open>generate\<close>. A coordinate is held as the text that the template
  literal prints for the number.
\<close>

record generate_options =
  latitude :: "jsstring option"
  longitude :: "jsstring option"
  altitude :: "jsstring option"
  gen_compress :: "bool option"

definition generateTPSString :: "int \<Rightarrow> generate_options \<Rightarrow> jsstring" where
  "generateTPSString date opts =
     (let fullYear = getUTCFullYear date;
          m = fullYear div 1000 + 1;
          c = js_rem fullYear 1000 div 100 + 1;
          y = js_rem fullYear 100;
          M = getUTCMonth date + 1;
          d = getUTCDate date;
          h = getUTCHours date;
          n = getUTCMinutes date;
          s = getUTCSeconds date;
          timePart = js ''T:greg.m'' @ Number_toString m @ js ''.c'' @ Number_toString c
                   @ js ''.y'' @ Number_toString y @ js ''.M'' @ pad M @ js ''.d'' @ pad d
                   @ js ''.h'' @ pad h @ js ''.n'' @ pad n @ js ''.s'' @ pad s;
          spacePart =
            (case (latitude opts, longitude opts) of
               (Some lat, Some lon) \<Rightarrow>
                 lat @ js '','' @ lon
                 @ (case altitude opts of Some alt \<Rightarrow> js '','' @ alt @ js ''m'' | None \<Rightarrow> [])
             | _ \<Rightarrow> js ''unknown'')
      in js ''tps://'' @ spacePart @ js ''@'' @ timePart)"

text \<open>\<open>now\<close> is the time value of \<open>new Date()\<close>, the reading of the system clock.\<close>

definition generate :: "platform \<Rightarrow> int \<Rightarrow> generate_options \<Rightarrow> error + jsstring" where
  "generate P now opts =
     (let tps' = generateTPSString now opts
      in encodeBinaryB64 P tps'
           \<lparr>opt_compress = gen_compress opts, opt_epochMs = Some (Num (of_int now))\<rparr>)"

subsection \<open>Sealing\<close>

text \<open>
  \<open>signEd25519\<close>: a key given as bytes is first parsed as DER (the result is not used,
  but a failure throws); a string that does not contain \<open>PRIVATE KEY\<close> is hex-decoded and
  parsed as PEM; anything else goes to \<open>crypto.sign\<close> as it is. Every exception inside
  the \<open>try\<close> becomes \<open>SigningFailed\<close>.
\<close>

fun contains :: "jsstring \<Rightarrow> jsstring \<Rightarrow> bool" where
  "contains [] p = (p = [])"
| "contains (u # us) p = (startsWith (u # us) p \<or> contains us p)"

definition signEd25519 :: "platform \<Rightarrow> bytes \<Rightarrow> key \<Rightarrow> error + bytes" where
  "signEd25519 P data privateKey =
     (if has_require P then
        (case (case privateKey of
                 KeyBytes b \<Rightarrow> createPrivateKey_der P b
               | _ \<Rightarrow> Some privateKey) of
           None \<Rightarrow> Inl SigningFailed
         | Some keyObj \<Rightarrow>
             (case (case privateKey of
                      KeyString h \<Rightarrow>
                        if \<not> contains h (js ''PRIVATE KEY'') then createPrivateKey_pem_hex P h
                        else Some privateKey
                    | _ \<Rightarrow> Some privateKey) of
                None \<Rightarrow> Inl SigningFailed
              | Some k \<Rightarrow>
                  (case crypto_sign P data k of
                     None \<Rightarrow> Inl SigningFailed
                   | Some sg \<Rightarrow> Inr sg)))
      else Inl SigningNotAvailableInBrowser)"

definition verifyEd25519 :: "platform \<Rightarrow> bytes \<Rightarrow> bytes \<Rightarrow> key \<Rightarrow> error + bool" where
  "verifyEd25519 P data signature publicKey =
     (if has_require P then
        Inr (case crypto_verify P data publicKey signature of Some ok \<Rightarrow> ok | None \<Rightarrow> False)
      else Inl VerificationNotAvailableInBrowser)"

definition seal :: "platform \<Rightarrow> jsstring \<Rightarrow> key \<Rightarrow> encode_options \<Rightarrow> error + bytes" where
  "seal P tps' privateKey opts =
     (let compress = (case opt_compress opts of Some c \<Rightarrow> c | None \<Rightarrow> False) in
      case resolve_epochMs tps' opts of
        Inl e \<Rightarrow> Inl e
      | Inr epochMs' \<Rightarrow>
          if \<not> Number_isInteger epochMs' \<or> number_less epochMs' 0
             \<or> number_greater epochMs' 0xffffffffffff
          then Inl SealEpochInvalid
          else
            let flags = (if compress then 0x01 else 0x00 :: byte) OR 0x02 in
            case randomBytes P 4 of
              Inl e \<Rightarrow> Inl e
            | Inr nonceBuf \<Rightarrow>
                let tpsUtf8 = TextEncoder_encode tps' in
                case (if compress then deflateRaw P tpsUtf8 else Inr tpsUtf8) of
                  Inl e \<Rightarrow> Inl e
                | Inr payload \<Rightarrow>
                    (case uvarintEncode (int (length payload)) of
                       Inl e \<Rightarrow> Inl e
                     | Inr lenVar \<Rightarrow>
                         let content = MAGIC @ [VER] @ [flags] @ writeU48 (BigInt epochMs')
                                       @ nonceBuf @ lenVar @ payload
                         in
                         case signEd25519 P content privateKey of
                           Inl e \<Rightarrow> Inl e
                         | Inr signature \<Rightarrow>
                             let sealType = 0x01 :: byte
                             in Inr (content @ [sealType] @ signature)))"

definition verifyAndDecode :: "platform \<Rightarrow> bytes \<Rightarrow> key \<Rightarrow> error + decode_result" where
  "verifyAndDecode P sealedBytes publicKey =
     (if length sealedBytes < 18 then Inl TooShort
      else if sealedBytes ! 0 \<noteq> 0x54 \<or> sealedBytes ! 1 \<noteq> 0x50 \<or> sealedBytes ! 2 \<noteq> 0x55
              \<or> sealedBytes ! 3 \<noteq> 0x37 then Inl BadMagic
      else
        let flags = sealedBytes ! 5 in
        if flags AND 0x02 = 0 then Inl NotSealed
        else
          case uvarintDecode sealedBytes 16 of
            Inl e \<Rightarrow> Inl e
          | Inr (tpsLen, bytesRead) \<Rightarrow>
              let offset = 16 + bytesRead;
                  payloadEnd = offset + tpsLen
              in
              if payloadEnd > length sealedBytes then Inl LengthOverflowTruncated
              else
                let content = slice_of sealedBytes 0 payloadEnd in
                if length sealedBytes \<le> payloadEnd + 1 then Inl MissingSignatureData
                else
                  let sealType = sealedBytes ! payloadEnd in
                  if sealType \<noteq> 0x01 then Inl (UnsupportedSealType sealType)
                  else
                    let signature = drop (payloadEnd + 1) sealedBytes in
                    if length signature \<noteq> 64 then Inl (InvalidSignatureLength (length signature))
                    else
                      case verifyEd25519 P content signature publicKey of
                        Inl e \<Rightarrow> Inl e
                      | Inr isValid \<Rightarrow>
                          if \<not> isValid then Inl SignatureVerificationFailed
                          else decodeBinary P content)"

subsection \<open>Vocabulary of the properties\<close>

text \<open>The range of \<open>epochMs\<close>: an integer from 0 to \<open>2^48 - 1\<close>.\<close>

definition is_uint48 :: "number \<Rightarrow> bool" where
  "is_uint48 n = (case n of Num r \<Rightarrow> r \<in> \<int> \<and> 0 \<le> r \<and> r \<le> 2 ^ 48 - 1 | _ \<Rightarrow> False)"

text \<open>
  A platform to evaluate the methods on: Node.js with a random source, a compressor that
  stores the data behind one zero byte, and a signature stand-in whose 64 bytes repeat
  the byte sum of the message plus the number of the key object. A private key object
  and the public key object of the same number match.
\<close>

definition checksum :: "bytes \<Rightarrow> byte" where
  "checksum d = foldr (+) d 0"

definition demo_platform :: platform where
  "demo_platform =
     \<lparr>has_require = True, node_randomBytes_ok = True, web_getRandomValues_ok = False,
      entropy = (\<lambda>i. of_nat (17 * i + 3)),
      zlib_deflateRawSync = (\<lambda>d. Some (0 # d)),
      zlib_inflateRawSync = (\<lambda>z. case z of [] \<Rightarrow> None | b # d \<Rightarrow> if b = 0 then Some d else None),
      createPrivateKey_der = (\<lambda>b. None),
      createPrivateKey_pem_hex = (\<lambda>h. None),
      crypto_sign = (\<lambda>d k. case k of KeyObject n \<Rightarrow> Some (replicate 64 (checksum d + of_nat n))
                               | _ \<Rightarrow> None),
      crypto_verify = (\<lambda>d k sg. case k of
                                   KeyObject n \<Rightarrow> Some (sg = replicate 64 (checksum d + of_nat n))
                                 | _ \<Rightarrow> None)\<rparr>"

text \<open>
  The bytes that \<open>encodeBinary\<close> and \<open>seal\<close> assemble from a flags byte, a time, the
  nonce bytes and the payload.
\<close>

definition layout :: "byte \<Rightarrow> int \<Rightarrow> bytes \<Rightarrow> bytes \<Rightarrow> bytes" where
  "layout fl e nb pl =
     MAGIC @ [VER] @ [fl] @ writeU48 e @ nb @ uvarintEncode_loop (of_nat (length pl)) [] @ pl"

text \<open>The platform inflates what it deflated from \<open>d\<close> back to \<open>d\<close>.\<close>

definition zlib_roundtrip :: "platform \<Rightarrow> bytes \<Rightarrow> bool" where
  "zlib_roundtrip P d =
     (case zlib_deflateRawSync P d of None \<Rightarrow> True | Some z \<Rightarrow> zlib_inflateRawSync P z = Some d)"

text \<open>Ed25519 signatures have 64 bytes: whatever the platform signs, it returns 64 bytes.\<close>

definition signs_64_bytes :: "platform \<Rightarrow> bool" where
  "signs_64_bytes P = (\<forall>d k sg. crypto_sign P d k = Some sg \<longrightarrow> length sg = 64)"

text \<open>
  A sealed token ends in the seal type and 64 signature bytes; what precedes them is the
  signed region \<open>[0, payloadEnd)\<close>.
\<close>

definition signed_region :: "bytes \<Rightarrow> bytes" where
  "signed_region tok = take (length tok - 65) tok"

definition signature_of :: "bytes \<Rightarrow> bytes" where
  "signature_of tok = drop (length tok - 64) tok"

text \<open>
  What \<open>seal\<close> returns on this platform for the string \<open>T:x\<close>, the key object 7 and
  \<open>epochMs = 5\<close>: twenty bytes of content, the seal type and the signature.
\<close>

definition demo_content :: bytes where
  "demo_content = [0x54, 0x50, 0x55, 0x37, 0x01, 0x02, 0, 0, 0, 0, 0, 5, 3, 20, 37, 54, 3,
                   0x54, 0x3A, 0x78]"

definition demo_token :: bytes where
  "demo_token = demo_content @ [0x01] @ replicate 64 186"

text \<open>
  The shape that \<open>validateBinaryB64\<close> is documented to check: the prefix \<open>tpsuid7rb_\<close>
  followed by one or more characters of the base64url alphabet.
\<close>

definition is_b64url_char :: "16 word \<Rightarrow> bool" where
  "is_b64url_char u =
     ((0x41 \<le> u \<and> u \<le> 0x5A) \<or> (0x61 \<le> u \<and> u \<le> 0x7A) \<or> (0x30 \<le> u \<and> u \<le> 0x39)
      \<or> u = 0x5F \<or> u = 0x2D)"

definition prefix_and_charset :: "jsstring \<Rightarrow> bool" where
  "prefix_and_charset s =
     (startsWith s PREFIX \<and> drop (length PREFIX) s \<noteq> []
      \<and> list_all is_b64url_char (drop (length PREFIX) s))"

text \<open>The strings a regular expression denotes, to state what the matcher decides.\<close>

inductive_set star :: "jsstring set \<Rightarrow> jsstring set" for A :: "jsstring set" where
  star_empty: "[] \<in> star A"
| star_more: "a \<in> A \<Longrightarrow> w \<in> star A \<Longrightarrow> a @ w \<in> star A"

fun lang :: "regex \<Rightarrow> jsstring set" where
  "lang Never = {}"
| "lang Empty = {[]}"
| "lang (Class rs) = {[u] | u. in_class rs u}"
| "lang (Alt r1 r2) = lang r1 \<union> lang r2"
| "lang (Seq r1 r2) = {a @ b | a b. a \<in> lang r1 \<and> b \<in> lang r2}"
| "lang (Star r) = star (lang r)"

text \<open>
  The time part that \<open>generateTPSString\<close> prints for a millennium, century and year
  number, a month, a day and a time of day.
\<close>

definition time_text :: "int \<Rightarrow> int \<Rightarrow> int \<Rightarrow> int \<Rightarrow> int \<Rightarrow> int \<Rightarrow> int \<Rightarrow> int \<Rightarrow> jsstring" where
  "time_text m c y M d h n s =
     js ''T:greg.m'' @ Number_toString m @ js ''.c'' @ Number_toString c
     @ js ''.y'' @ Number_toString y @ js ''.M'' @ pad M @ js ''.d'' @ pad d
     @ js ''.h'' @ pad h @ js ''.n'' @ pad n @ js ''.s'' @ pad s"

text \<open>
  The characters that the text of a number is made of (digits, sign, point, exponent mark
  and the letters of \<open>Infinity\<close> and \<open>NaN\<close>), and the options whose coordinates are
  texts of numbers.
\<close>

definition is_number_char :: "16 word \<Rightarrow> bool" where
  "is_number_char u = (u \<in> set (js ''0123456789+-.eInfityNa''))"

definition coordinates_are_numbers :: "generate_options \<Rightarrow> bool" where
  "coordinates_are_numbers opts =
     (\<forall>t \<in> set_option (latitude opts) \<union> set_option (longitude opts) \<union> set_option (altitude opts).
        \<forall>u \<in> set t. is_number_char u)"

section \<open>Properties\<close>

subsection \<open>The varint coder\<close>

lemma word_lt_2p_iff_take_bit:
  fixes w :: "'a::len word"
  assumes "n < LENGTH('a)"
  shows "w < 2 ^ n \<longleftrightarrow> take_bit n w = w"
proof
  assume "w < 2 ^ n"
  then show "take_bit n w = w" by (simp add: take_bit_eq_mask less_mask_eq)
next
  assume h: "take_bit n w = w"
  have "w AND mask n < 2 ^ n" using assms by (simp add: and_mask_less_size word_size)
  with h show "w < 2 ^ n" by (simp add: take_bit_eq_mask)
qed

lemma byte_lt_0x80_iff: "(b :: byte) < 0x80 \<longleftrightarrow> \<not> bit b 7"
proof -
  have "b < 2 ^ 7 \<longleftrightarrow> take_bit 7 b = b"
    by (rule word_lt_2p_iff_take_bit) simp
  also have "\<dots> \<longleftrightarrow> \<not> bit b 7"
  proof
    assume h: "take_bit 7 b = b"
    have "\<not> bit (take_bit 7 b) 7" by (simp add: bit_take_bit_iff)
    with h show "\<not> bit b 7" by simp
  next
    assume h: "\<not> bit b 7"
    show "take_bit 7 b = b"
    proof (rule bit_word_eqI)
      fix n assume "n < LENGTH(8)"
      then have "n < 7 \<or> n = 7" by auto
      with h show "bit (take_bit 7 b) n = bit b n" by (auto simp: bit_take_bit_iff)
    qed
  qed
  finally show ?thesis by simp
qed

lemma mask7: "(0x7f :: 'a::len word) = mask 7"
  by (simp add: mask_eq_exp_minus_1)

lemma bit_0x7f: "bit (0x7f :: 'a::len word) n \<longleftrightarrow> n < 7 \<and> n < LENGTH('a)"
  by (simp only: mask7 bit_mask_iff possible_bit_word) auto

lemma bit_0x80: "bit (0x80 :: 'a::len word) n \<longleftrightarrow> n = 7 \<and> 7 < LENGTH('a)"
proof -
  have "(0x80 :: 'a word) = 2 ^ 7" by simp
  then show ?thesis by (auto simp only: bit_exp_iff possible_bit_word)
qed

lemma cont_byte_ge: "\<not> (ucast ((x AND 0x7f) OR 0x80 :: 32 word) :: byte) < 0x80"
  by (simp only: byte_lt_0x80_iff bit_ucast_iff bit_or_iff bit_0x80) simp

lemma cont_byte_low: "(ucast ((ucast ((x AND 0x7f) OR 0x80 :: 32 word) :: byte) AND 0x7f) :: 32 word) = x AND 0x7f"
proof (rule bit_word_eqI)
  fix n assume "n < LENGTH(32)"
  have a: "bit (x AND 0x7f) n \<longleftrightarrow> bit x n \<and> n < 7"
    using \<open>n < LENGTH(32)\<close> by (simp only: bit_and_iff bit_0x7f) auto
  have b: "bit ((x AND 0x7f) OR 0x80) n \<longleftrightarrow> (bit x n \<and> n < 7) \<or> n = 7"
    by (simp only: bit_or_iff a bit_0x80) simp
  have c: "bit ((ucast ((x AND 0x7f) OR 0x80) :: byte) AND 0x7f) n \<longleftrightarrow> bit x n \<and> n < 7"
    by (simp only: bit_and_iff bit_0x7f bit_ucast_iff b) auto
  show "bit (ucast ((ucast ((x AND 0x7f) OR 0x80) :: byte) AND 0x7f) :: 32 word) n = bit (x AND 0x7f) n"
    by (simp only: bit_ucast_iff c a) auto
qed

lemma last_byte_lt: "(x :: 32 word) < 0x80 \<Longrightarrow> (ucast x :: byte) < 0x80"
proof -
  assume "x < 0x80"
  then have "x < 2 ^ 7" by simp
  then have t: "take_bit 7 x = x" by (subst (asm) word_lt_2p_iff_take_bit) simp_all
  have "\<not> bit (take_bit 7 x) 7" by (simp add: bit_take_bit_iff)
  then have "\<not> bit x 7" using t by simp
  then show ?thesis by (simp add: byte_lt_0x80_iff bit_ucast_iff)
qed

lemma last_byte_val: "(x :: 32 word) < 0x80 \<Longrightarrow> (ucast (ucast x :: byte) :: 32 word) = x"
proof -
  assume "x < 0x80"
  then have "x < 2 ^ 7" by simp
  then have t: "take_bit 7 x = x" by (subst (asm) word_lt_2p_iff_take_bit) simp_all
  show ?thesis
  proof (rule bit_word_eqI)
    fix n assume "n < LENGTH(32)"
    have "bit x n \<Longrightarrow> n < 7" using t by (metis bit_take_bit_iff)
    then show "bit (ucast (ucast x :: byte) :: 32 word) n = bit x n"
      by (auto simp: bit_ucast_iff)
  qed
qed

lemma acc_step:
  "take_bit s (N :: 32 word) OR push_bit s (drop_bit s N AND 0x7f) = take_bit (s + 7) N"
proof (rule bit_word_eqI)
  fix n assume "n < LENGTH(32)"
  then show "bit (take_bit s N OR push_bit s (drop_bit s N AND 0x7f)) n = bit (take_bit (s + 7) N) n"
    by (simp only: bit_or_iff bit_take_bit_iff bit_push_bit_iff bit_and_iff bit_0x7f
          bit_drop_bit_eq possible_bit_word) (cases "n < s"; auto)
qed

lemma acc_final:
  "take_bit s (N :: 32 word) OR push_bit s (drop_bit s N) = N"
proof (rule bit_word_eqI)
  fix n assume "n < LENGTH(32)"
  show "bit (take_bit s N OR push_bit s (drop_bit s N)) n = bit N n"
    using \<open>n < LENGTH(32)\<close>
    by (cases "n < s") (auto simp: bit_or_iff bit_take_bit_iff bit_push_bit_iff bit_drop_bit_eq)
qed

lemma drop_28_small: "drop_bit (7 * i) (N :: 32 word) \<ge> 0x80 \<Longrightarrow> i \<le> 4 \<Longrightarrow> i \<le> 3"
proof (rule ccontr)
  assume h: "drop_bit (7 * i) N \<ge> 0x80" and "i \<le> 4" and "\<not> i \<le> 3"
  then have i: "i = 4" by simp
  have "take_bit 7 (drop_bit 28 N) = drop_bit 28 N"
  proof (rule bit_word_eqI)
    fix n assume "n < LENGTH(32)"
    have "bit N (28 + n) \<Longrightarrow> n < 7" using bit_imp_le_length [of N "28 + n"] by simp
    then show "bit (take_bit 7 (drop_bit 28 N)) n = bit (drop_bit 28 N) n"
      by (auto simp: bit_take_bit_iff bit_drop_bit_eq)
  qed
  then have "drop_bit 28 N < 2 ^ 7" by (subst word_lt_2p_iff_take_bit) simp_all
  with h i show False by simp
qed

lemma drop7_less: "(x :: 32 word) \<ge> 0x80 \<Longrightarrow> unat (drop_bit 7 x) < unat x"
proof -
  assume "0x80 \<le> x"
  then have "128 \<le> unat x" by (simp add: word_le_nat_alt)
  then have "unat x div 128 < unat x" by simp
  then show ?thesis by (simp add: drop_bit_eq_div unat_div)
qed

lemma uvarintEncode_loop_acc: "uvarintEncode_loop y out = out @ uvarintEncode_loop y []"
proof (induction "unat y" arbitrary: y out rule: less_induct)
  case less
  show ?case
  proof (cases "y \<ge> 0x80")
    case True
    let ?b = "ucast ((y AND 0x7f) OR 0x80) :: byte"
    have ih: "\<And>out'. uvarintEncode_loop (drop_bit 7 y) out' = out' @ uvarintEncode_loop (drop_bit 7 y) []"
      using less [OF drop7_less [OF True]] .
    have "uvarintEncode_loop y out = uvarintEncode_loop (drop_bit 7 y) (out @ [?b])"
      using True by (subst uvarintEncode_loop.simps) simp
    also have "\<dots> = out @ [?b] @ uvarintEncode_loop (drop_bit 7 y) []"
      by (subst ih) simp
    also have "[?b] @ uvarintEncode_loop (drop_bit 7 y) [] = uvarintEncode_loop (drop_bit 7 y) [?b]"
      by (subst (2) ih) simp
    also have "uvarintEncode_loop (drop_bit 7 y) [?b] = uvarintEncode_loop y []"
      using True by (subst (2) uvarintEncode_loop.simps) simp
    finally show ?thesis .
  next
    case False
    then show ?thesis by (subst (1 2) uvarintEncode_loop.simps) simp
  qed
qed

lemma uvarintEncode_loop_step:
  "y \<ge> 0x80 \<Longrightarrow> uvarintEncode_loop y [] = ucast ((y AND 0x7f) OR 0x80) # uvarintEncode_loop (drop_bit 7 y) []"
  by (subst uvarintEncode_loop.simps, subst uvarintEncode_loop_acc) simp

lemma uvarintEncode_loop_last:
  "\<not> y \<ge> 0x80 \<Longrightarrow> uvarintEncode_loop y [] = [ucast y]"
  by (subst uvarintEncode_loop.simps) simp

lemma uvarintEncode_loop_nonempty: "uvarintEncode_loop y [] \<noteq> []"
  by (cases "y \<ge> 0x80") (simp_all add: uvarintEncode_loop_step uvarintEncode_loop_last)

lemma dec_enc_loop:
  "i \<le> 4 \<Longrightarrow> length pre = offset + i \<Longrightarrow>
   uvarintDecode_loop (pre @ uvarintEncode_loop (drop_bit (7 * i) N) [] @ post) offset
       (take_bit (7 * i) N) (7 * i) i
     = Inr (unat N, i + length (uvarintEncode_loop (drop_bit (7 * i) N) []))"
proof (induction "4 - i" arbitrary: i pre)
  case 0
  then have i: "i = 4" by simp
  let ?y = "drop_bit (7 * i) N"
  have small: "\<not> ?y \<ge> 0x80" using drop_28_small [of i N] i by auto
  then have lt: "?y < 0x80" by simp
  have enc: "uvarintEncode_loop ?y [] = [ucast ?y]" using small by (rule uvarintEncode_loop_last)
  have nth: "(pre @ [ucast ?y] @ post) ! (offset + i) = ucast ?y"
    using "0.prems" by (simp add: nth_append)
  show ?case
    apply (subst uvarintDecode_loop.simps)
    apply (simp only: enc nth Let_def)
    using "0.prems" last_byte_lt [OF lt] last_byte_val [OF lt] i
    apply (simp add: js_shl_def acc_final)
    done
next
  case (Suc k)
  then have i3: "i \<le> 3" by simp
  let ?y = "drop_bit (7 * i) N"
  show ?case
  proof (cases "?y \<ge> 0x80")
    case False
    then have lt: "?y < 0x80" by simp
    have enc: "uvarintEncode_loop ?y [] = [ucast ?y]" using False by (rule uvarintEncode_loop_last)
    have nth: "(pre @ [ucast ?y] @ post) ! (offset + i) = ucast ?y"
      using Suc.prems by (simp add: nth_append)
    have s32: "7 * i mod 32 = 7 * i" using i3 by simp
    show ?thesis
      apply (subst uvarintDecode_loop.simps)
      apply (simp only: enc nth Let_def)
      using Suc.prems last_byte_lt [OF lt] last_byte_val [OF lt] i3
      apply (simp add: js_shl_def acc_final s32)
      done
  next
    case True
    let ?b = "ucast ((?y AND 0x7f) OR 0x80) :: byte"
    have enc: "uvarintEncode_loop ?y [] = ?b # uvarintEncode_loop (drop_bit (7 * (i + 1)) N) []"
      using uvarintEncode_loop_step [OF True] by (simp add: add.commute)
    have nth: "(pre @ (?b # uvarintEncode_loop (drop_bit (7 * (i + 1)) N) []) @ post) ! (offset + i) = ?b"
      using Suc.prems by (simp add: nth_append)
    have s32: "7 * i mod 32 = 7 * i" using i3 by simp
    have ih: "uvarintDecode_loop ((pre @ [?b]) @ uvarintEncode_loop (drop_bit (7 * (i + 1)) N) [] @ post) offset
       (take_bit (7 * (i + 1)) N) (7 * (i + 1)) (i + 1)
     = Inr (unat N, (i + 1) + length (uvarintEncode_loop (drop_bit (7 * (i + 1)) N) []))"
      using Suc.hyps(2) Suc.prems i3 by (intro Suc.hyps(1)) auto
    have acc: "take_bit (7 * i) N OR js_shl (ucast (?b AND 0x7f)) (7 * i) = take_bit (7 * (i + 1)) N"
      by (simp only: js_shl_def s32 cont_byte_low acc_step) (simp add: algebra_simps)
    let ?bs = "pre @ (?b # uvarintEncode_loop (drop_bit (7 * (i + 1)) N) []) @ post"
    have "uvarintDecode_loop ?bs offset (take_bit (7 * i) N) (7 * i) i
        = uvarintDecode_loop ?bs offset (take_bit (7 * i) N OR js_shl (ucast (?b AND 0x7f)) (7 * i))
            (7 * i + 7) (i + 1)"
      apply (subst uvarintDecode_loop.simps)
      apply (simp only: nth Let_def)
      using Suc.prems i3 cont_byte_ge [of ?y]
      apply simp
      done
    also have "\<dots> = uvarintDecode_loop ?bs offset (take_bit (7 * (i + 1)) N) (7 * (i + 1)) (i + 1)"
      by (simp only: acc) (simp add: algebra_simps)
    also have "\<dots> = Inr (unat N, (i + 1) + length (uvarintEncode_loop (drop_bit (7 * (i + 1)) N) []))"
      using ih by simp
    finally show ?thesis by (simp add: enc)
  qed
qed

lemma uvarintDecode_uvarintEncode:
  assumes "n < 2 ^ 32" and "length pre = offset"
  shows "uvarintDecode (pre @ uvarintEncode_loop (of_nat n) [] @ post) offset
         = Inr (n, length (uvarintEncode_loop (of_nat n :: 32 word) []))"
proof -
  have "unat (of_nat n :: 32 word) = n" using assms(1) by (simp add: unat_of_nat)
  then show ?thesis
    using dec_enc_loop [of 0 pre offset "of_nat n" post] assms(2)
    by (simp add: uvarintDecode_def)
qed

subsection \<open>The 48-bit time field\<close>

lemma byte_of_int: "uint (word_of_int (drop_bit k v AND 0xff) :: byte) = (v div 2 ^ k) mod 256"
proof -
  have "(0xff :: int) = mask 8" by (simp add: mask_eq_exp_minus_1)
  then have "drop_bit k v AND 0xff = take_bit 8 (drop_bit k v)"
    by (simp only: take_bit_eq_mask)
  then show ?thesis
    by (simp add: uint_word_of_int take_bit_eq_mod drop_bit_eq_div)
qed

lemma byte_of_int0: "uint (word_of_int (v AND 0xff) :: byte) = v mod 256"
  using byte_of_int [of 0 v] by simp

lemma u48_digits:
  assumes "0 \<le> v" "v < 2 ^ 48"
  shows "(v div 2 ^ 40) mod 256 * 2 ^ 40 + (v div 2 ^ 32) mod 256 * 2 ^ 32
       + (v div 2 ^ 24) mod 256 * 2 ^ 24 + (v div 2 ^ 16) mod 256 * 2 ^ 16
       + (v div 2 ^ 8) mod 256 * 2 ^ 8 + v mod 256 = (v :: int)"
proof -
  have a: "v mod 281474976710656 = v" using assms by simp
  have s: "v mod (k * 256) = k * (v div k mod 256) + v mod k" for k :: int
    by (rule zmod_zmult2_eq) simp
  have e5: "v mod 281474976710656 = 1099511627776 * (v div 1099511627776 mod 256) + v mod 1099511627776"
    using s [of 1099511627776] by simp
  have e4: "v mod 1099511627776 = 4294967296 * (v div 4294967296 mod 256) + v mod 4294967296"
    using s [of 4294967296] by simp
  have e3: "v mod 4294967296 = 16777216 * (v div 16777216 mod 256) + v mod 16777216"
    using s [of 16777216] by simp
  have e2: "v mod 16777216 = 65536 * (v div 65536 mod 256) + v mod 65536"
    using s [of 65536] by simp
  have e1: "v mod 65536 = 256 * (v div 256 mod 256) + v mod 256"
    using s [of 256] by simp
  have "(v div 1099511627776) mod 256 * 1099511627776 + (v div 4294967296) mod 256 * 4294967296
       + (v div 16777216) mod 256 * 16777216 + (v div 65536) mod 256 * 65536
       + (v div 256) mod 256 * 256 + v mod 256 = v"
    using a e1 e2 e3 e4 e5 by linarith
  then show ?thesis by simp
qed

lemma readU48_six:
  "readU48 (pre @ [b0, b1, b2, b3, b4, b5] @ post) (length pre)
   = Inr (uint b0 * 2 ^ 40 + uint b1 * 2 ^ 32 + uint b2 * 2 ^ 24 + uint b3 * 2 ^ 16
          + uint b4 * 2 ^ 8 + uint b5)"
proof -
  have b: "uint x < 256" "0 \<le> uint x" for x :: byte
    using uint_lt2p [of x] by simp_all
  have "uint b0 * 2 ^ 40 + uint b1 * 2 ^ 32 + uint b2 * 2 ^ 24 + uint b3 * 2 ^ 16
          + uint b4 * 2 ^ 8 + uint b5 \<le> 2 ^ 53 - 1"
    using b [of b0] b [of b1] b [of b2] b [of b3] b [of b4] b [of b5] by simp
  then show ?thesis
    by (simp add: readU48_def push_bit_eq_mult Let_def nth_append)
qed

lemma readU48_writeU48:
  assumes "0 \<le> v" "v < 2 ^ 48"
  shows "readU48 (pre @ writeU48 v @ post) (length pre) = Inr v"
  unfolding writeU48_def
  apply (subst readU48_six)
  apply (simp only: byte_of_int)
  apply (simp only: byte_of_int0 u48_digits [OF assms])
  done

subsection \<open>Decoding a buffer laid out as the encoder writes it\<close>

lemma length_writeU48 [simp]: "length (writeU48 v) = 6"
  by (simp add: writeU48_def)

lemma slice_middle: "slice_of (pre @ xs @ post) (length pre) (length pre + length xs) = xs"
  by (simp add: slice_of_def)

lemma decodeBinary_layout:
  assumes v: "0 \<le> v" "v < 2 ^ 48" and nb: "length nb = 4" and pl: "length pl < 2 ^ 32"
  shows "decodeBinary P (MAGIC @ [VER] @ [fl] @ writeU48 v @ nb
                         @ uvarintEncode_loop (of_nat (length pl)) [] @ pl @ extra)
       = (case (if fl AND 0x01 = 0x01 then inflateRaw P pl else Inr pl) of
            Inl e \<Rightarrow> Inl e
          | Inr u \<Rightarrow>
              Inr \<lparr>version = js ''tpsuid7rb'', epochMs = v, compressed = (fl AND 0x01 = 0x01),
                   nonce = nonce_value nb, tps = TextDecoder_decode u\<rparr>)"
proof -
  define lv where "lv = uvarintEncode_loop (of_nat (length pl) :: 32 word) []"
  define bs where "bs = MAGIC @ [VER] @ [fl] @ writeU48 v @ nb @ lv @ pl @ extra"
  have lv_ne: "lv \<noteq> []" by (simp add: lv_def uvarintEncode_loop_nonempty)
  have len: "length bs = 16 + length lv + length pl + length extra"
    by (simp add: bs_def MAGIC_def nb)
  have len17: "\<not> length bs < 17" using lv_ne len by (cases lv) simp_all
  have hd: "bs ! 0 = 0x54" "bs ! 1 = 0x50" "bs ! 2 = 0x55" "bs ! 3 = 0x37" "bs ! 4 = VER" "bs ! 5 = fl"
    by (simp_all add: bs_def MAGIC_def)
  have time: "readU48 bs 6 = Inr v"
  proof -
    have "bs = (MAGIC @ [VER] @ [fl]) @ writeU48 v @ (nb @ lv @ pl @ extra)" by (simp add: bs_def)
    moreover have "length (MAGIC @ [VER] @ [fl]) = 6" by (simp add: MAGIC_def)
    ultimately show ?thesis using readU48_writeU48 [OF v, of "MAGIC @ [VER] @ [fl]"] by simp
  qed
  have nn: "bs ! 12 = nb ! 0" "bs ! 13 = nb ! 1" "bs ! 14 = nb ! 2" "bs ! 15 = nb ! 3"
    using nb by (simp_all add: bs_def MAGIC_def nth_append)
  have var: "uvarintDecode bs 16 = Inr (length pl, length lv)"
  proof -
    have "bs = (MAGIC @ [VER] @ [fl] @ writeU48 v @ nb) @ lv @ (pl @ extra)" by (simp add: bs_def)
    moreover have "length (MAGIC @ [VER] @ [fl] @ writeU48 v @ nb) = 16" by (simp add: MAGIC_def nb)
    ultimately show ?thesis
      using uvarintDecode_uvarintEncode [OF pl, of "MAGIC @ [VER] @ [fl] @ writeU48 v @ nb" 16 "pl @ extra"]
      by (simp add: lv_def)
  qed
  have sl: "slice_of bs (16 + length lv) (16 + length lv + length pl) = pl"
  proof -
    define pre where "pre = MAGIC @ [VER] @ [fl] @ writeU48 v @ nb @ lv"
    have a: "bs = pre @ pl @ extra" by (simp add: bs_def pre_def)
    have b: "length pre = 16 + length lv" by (simp add: pre_def MAGIC_def nb)
    show ?thesis unfolding a using slice_middle [of pre pl extra] by (simp only: b)
  qed
  have ovf: "\<not> 16 + length lv + length pl > length bs" using len by simp
  have "decodeBinary P bs
       = (case (if fl AND 0x01 = 0x01 then inflateRaw P pl else Inr pl) of
            Inl e \<Rightarrow> Inl e
          | Inr u \<Rightarrow>
              Inr \<lparr>version = js ''tpsuid7rb'', epochMs = v, compressed = (fl AND 0x01 = 0x01),
                   nonce = nonce_value nb, tps = TextDecoder_decode u\<rparr>)"
    unfolding decodeBinary_def
    by (simp only: len17 ovf hd time nn var sl Let_def nonce_value_def if_False simp_thms
          sum.case prod.case)
  then show ?thesis by (simp only: bs_def lv_def)
qed

subsection \<open>What encodeBinary writes\<close>

lemma randomBytes_length: "randomBytes P n = Inr nb \<Longrightarrow> length nb = n"
  by (auto simp: randomBytes_def split: if_splits)

lemma number_checks:
  "\<not> (\<not> Number_isInteger n \<or> number_less n 0) \<and> \<not> number_greater n 0xffffffffffff
   \<longleftrightarrow> is_uint48 n"
  by (cases n) (auto simp: is_uint48_def Ints_def)

lemma is_uint48_BigInt:
  "is_uint48 n \<Longrightarrow> 0 \<le> BigInt n \<and> BigInt n < 2 ^ 48 \<and> n = Num (of_int (BigInt n))"
  by (cases n) (auto simp: is_uint48_def Ints_def)

lemma encodeBinary_layout:
  assumes n: "is_uint48 n" and ep: "resolve_epochMs s opts = Inr n"
    and rnd: "randomBytes P 4 = Inr nb"
    and pl: "(if (case opt_compress opts of Some c \<Rightarrow> c | None \<Rightarrow> False)
              then deflateRaw P (TextEncoder_encode s) else Inr (TextEncoder_encode s)) = Inr pl"
  shows "encodeBinary P s opts
       = Inr (MAGIC @ [VER] @ [if (case opt_compress opts of Some c \<Rightarrow> c | None \<Rightarrow> False) then 0x01 else 0x00]
              @ writeU48 (BigInt n) @ nb @ uvarintEncode_loop (of_nat (length pl)) [] @ pl)"
proof -
  have chk: "\<not> (\<not> Number_isInteger n \<or> number_less n 0)" "\<not> number_greater n 0xffffffffffff"
    using n number_checks [of n] by auto
  show ?thesis
    unfolding encodeBinary_def
    by (simp only: ep rnd pl chk Let_def sum.case if_False uvarintEncode_def) simp
qed

lemma encodeBinary_range_error:
  assumes "\<not> is_uint48 n" and "opt_epochMs opts = Some n"
  shows "encodeBinary P s opts = Inl EpochNotNonNegInt \<or> encodeBinary P s opts = Inl EpochExceeds48"
proof -
  have ep: "resolve_epochMs s opts = Inr n" using assms(2) by (simp add: resolve_epochMs_def)
  show ?thesis
    using assms(1) number_checks [of n]
    unfolding encodeBinary_def by (simp only: ep Let_def sum.case) auto
qed

lemma demo_random: "randomBytes demo_platform 4 = Inr [3, 20, 37, 54]"
  by (simp add: randomBytes_def demo_platform_def upt_rec)

lemma utf8_Tx: "TextEncoder_encode [0x54, 0x3A, 0x78] = [0x54, 0x3A, 0x78]"
  by (simp add: TextEncoder_encode_def utf8_encode_scalar_def is_high_surrogate_def is_low_surrogate_def)

lemma uvarintDecode_loop_append:
  "uvarintDecode_loop bs off x s i = Inr res \<Longrightarrow> uvarintDecode_loop (bs @ ex) off x s i = Inr res"
proof (induction bs off x s i rule: uvarintDecode_loop.induct)
  case (1 bs offset x s i)
  from "1.prems" have inb: "offset + i < length bs"
    by (subst (asm) uvarintDecode_loop.simps) (simp split: if_splits)
  then have nth: "(bs @ ex) ! (offset + i) = bs ! (offset + i)" by (simp add: nth_append)
  show ?case
  proof (cases "bs ! (offset + i) < 0x80 \<or> i + 1 > 10")
    case True
    with "1.prems" inb nth show ?thesis
      by (subst uvarintDecode_loop.simps, subst (asm) uvarintDecode_loop.simps)
         (auto simp: Let_def split: if_splits)
  next
    case False
    then have rec: "uvarintDecode_loop bs offset (x OR js_shl (ucast (bs ! (offset + i) AND 0x7f)) s) (s + 7) (i + 1) = Inr res"
      using "1.prems" inb by (subst (asm) uvarintDecode_loop.simps) (simp add: Let_def)
    have "uvarintDecode_loop (bs @ ex) offset (x OR js_shl (ucast (bs ! (offset + i) AND 0x7f)) s) (s + 7) (i + 1) = Inr res"
      using "1.IH" [OF _ refl _ _ rec] inb False by simp
    then show ?thesis
      using False inb nth by (subst uvarintDecode_loop.simps) (simp add: Let_def)
  qed
qed

lemma uvarintDecode_loop_bound:
  "uvarintDecode_loop bs off x s i = Inr (v, k) \<Longrightarrow> off + k \<le> length bs \<and> i < k"
proof (induction bs off x s i rule: uvarintDecode_loop.induct)
  case (1 bs offset x s i)
  from "1.prems" have inb: "offset + i < length bs"
    by (subst (asm) uvarintDecode_loop.simps) (simp split: if_splits)
  show ?case
  proof (cases "bs ! (offset + i) < 0x80 \<or> i + 1 > 10")
    case True
    with "1.prems" inb show ?thesis
      by (subst (asm) uvarintDecode_loop.simps) (auto simp: Let_def split: if_splits)
  next
    case False
    then have rec: "uvarintDecode_loop bs offset (x OR js_shl (ucast (bs ! (offset + i) AND 0x7f)) s) (s + 7) (i + 1) = Inr (v, k)"
      using "1.prems" inb by (subst (asm) uvarintDecode_loop.simps) (simp add: Let_def)
    show ?thesis using "1.IH" [OF _ refl _ _ rec] inb False by simp
  qed
qed

lemma readU48_append: "off + 6 \<le> length bs \<Longrightarrow> readU48 (bs @ ex) off = readU48 bs off"
  by (simp add: readU48_def nth_append)

lemma decodeBinary_append:
  assumes "decodeBinary P b = Inr r"
  shows "decodeBinary P (b @ x) = Inr r"
proof -
  from assms have len: "\<not> length b < 17"
    by (auto simp: decodeBinary_def split: if_splits)
  then have len': "\<not> length (b @ x) < 17" by simp
  have nth: "\<And>k. k < 17 \<Longrightarrow> (b @ x) ! k = b ! k" using len by (simp add: nth_append)
  have time: "readU48 (b @ x) 6 = readU48 b 6" using len by (simp add: readU48_append)
  from assms obtain v k where var: "uvarintDecode b 16 = Inr (v, k)"
    by (auto simp: decodeBinary_def Let_def split: if_splits sum.splits)
  then have var': "uvarintDecode (b @ x) 16 = Inr (v, k)"
    by (simp add: uvarintDecode_def uvarintDecode_loop_append)
  from assms var have fit: "\<not> length b < 16 + k + v"
    by (auto simp: decodeBinary_def Let_def split: if_splits sum.splits)
  then have fit': "\<not> length (b @ x) < 16 + k + v" by simp
  have sl: "slice_of (b @ x) (16 + k) (16 + k + v) = slice_of b (16 + k) (16 + k + v)"
    using fit by (simp add: slice_of_def)
  have "decodeBinary P (b @ x) = decodeBinary P b"
    unfolding decodeBinary_def
    by (simp only: len len' nth time var var' fit fit' sl Let_def if_False prod.case sum.case)
  with assms show ?thesis by simp
qed

lemma decodeBinary_ignores_crypto:
  "decodeBinary (P\<lparr>crypto_verify := vf\<rparr>) bs = decodeBinary P bs"
proof -
  have "inflateRaw (P\<lparr>crypto_verify := vf\<rparr>) = inflateRaw P"
    by (simp add: inflateRaw_def fun_eq_iff)
  then show ?thesis by (simp only: decodeBinary_def)
qed

lemma number_checks_seal:
  "\<not> (\<not> Number_isInteger n \<or> number_less n 0 \<or> number_greater n 0xffffffffffff)
   \<longleftrightarrow> is_uint48 n"
  using number_checks [of n] by auto

lemma seal_layout:
  assumes "seal P s sk opts = Inr tok"
  shows "\<exists>n nb pl sg.
           is_uint48 n \<and> resolve_epochMs s opts = Inr n \<and> randomBytes P 4 = Inr nb
         \<and> (if (case opt_compress opts of Some c \<Rightarrow> c | None \<Rightarrow> False)
             then deflateRaw P (TextEncoder_encode s) else Inr (TextEncoder_encode s)) = Inr pl
         \<and> signEd25519 P (layout ((if (case opt_compress opts of Some c \<Rightarrow> c | None \<Rightarrow> False)
                                     then 0x01 else 0x00) OR 0x02) (BigInt n) nb pl) sk = Inr sg
         \<and> tok = layout ((if (case opt_compress opts of Some c \<Rightarrow> c | None \<Rightarrow> False)
                            then 0x01 else 0x00) OR 0x02) (BigInt n) nb pl @ [0x01] @ sg"
proof -
  define cmp where "cmp = (case opt_compress opts of Some c \<Rightarrow> c | None \<Rightarrow> False)"
  from assms obtain n where ep: "resolve_epochMs s opts = Inr n"
    by (auto simp: seal_def Let_def split: sum.splits)
  from assms ep have n: "is_uint48 n"
    using number_checks_seal [of n]
    by (auto simp: seal_def Let_def split: sum.splits if_splits)
  then have chk: "\<not> (\<not> Number_isInteger n \<or> number_less n 0 \<or> number_greater n 0xffffffffffff)"
    using number_checks_seal [of n] by simp
  from assms ep chk obtain nb where rnd: "randomBytes P 4 = Inr nb"
    unfolding seal_def by (simp only: ep chk Let_def sum.case if_False split: sum.splits; auto)
  from assms obtain pl where pl: "(if cmp then deflateRaw P (TextEncoder_encode s)
                                    else Inr (TextEncoder_encode s)) = Inr pl"
    unfolding seal_def cmp_def [symmetric]
    by (simp only: ep chk rnd Let_def sum.case if_False split: sum.splits; auto)
  define C where "C = layout ((if cmp then 0x01 else 0x00) OR 0x02) (BigInt n) nb pl"
  have ue: "uvarintEncode (int (length pl)) = Inr (uvarintEncode_loop (of_nat (length pl)) [])"
    by (simp add: uvarintEncode_def)
  have red: "seal P s sk opts
           = (case signEd25519 P C sk of Inl e \<Rightarrow> Inl e | Inr sg \<Rightarrow> Inr (C @ [0x01] @ sg))"
    unfolding seal_def cmp_def [symmetric] C_def layout_def
    by (simp only: ep chk rnd pl ue Let_def sum.case if_False)
  from assms red obtain sg where sg: "signEd25519 P C sk = Inr sg" and tok: "tok = C @ [0x01] @ sg"
    by (cases "signEd25519 P C sk") auto
  show ?thesis
    using n ep rnd pl sg tok unfolding cmp_def C_def by blast
qed


lemma seal_success:
  assumes "is_uint48 n" and "resolve_epochMs s opts = Inr n" and "randomBytes P 4 = Inr nb"
    and "(if (case opt_compress opts of Some c \<Rightarrow> c | None \<Rightarrow> False)
          then deflateRaw P (TextEncoder_encode s) else Inr (TextEncoder_encode s)) = Inr pl"
    and "signEd25519 P (layout ((if (case opt_compress opts of Some c \<Rightarrow> c | None \<Rightarrow> False)
                                 then 0x01 else 0x00) OR 0x02) (BigInt n) nb pl) sk = Inr sg"
  shows "seal P s sk opts
       = Inr (layout ((if (case opt_compress opts of Some c \<Rightarrow> c | None \<Rightarrow> False)
                       then 0x01 else 0x00) OR 0x02) (BigInt n) nb pl @ [0x01] @ sg)"
proof -
  have chk: "\<not> (\<not> Number_isInteger n \<or> number_less n 0 \<or> number_greater n 0xffffffffffff)"
    using assms(1) number_checks_seal [of n] by simp
  have ue: "uvarintEncode (int (length pl)) = Inr (uvarintEncode_loop (of_nat (length pl)) [])"
    by (simp add: uvarintEncode_def)
  show ?thesis
    using assms(5) unfolding seal_def layout_def
    by (simp only: assms(2,3,4) chk ue Let_def sum.case if_False)
qed

lemma decodeBinary_of_layout:
  assumes "0 \<le> v" "v < 2 ^ 48" "length nb = 4" "length pl < 2 ^ 32"
  shows "decodeBinary P (layout fl v nb pl @ extra)
       = (case (if fl AND 0x01 = 0x01 then inflateRaw P pl else Inr pl) of
            Inl e \<Rightarrow> Inl e
          | Inr u \<Rightarrow>
              Inr \<lparr>version = js ''tpsuid7rb'', epochMs = v, compressed = (fl AND 0x01 = 0x01),
                   nonce = nonce_value nb, tps = TextDecoder_decode u\<rparr>)"
  using decodeBinary_layout [OF assms, of P fl extra] by (simp add: layout_def)

lemma length_layout: "length (layout fl v nb pl) \<ge> length pl"
  by (simp add: layout_def)

lemma seal_flag_bits:
  "((if c then 0x01 else 0x00 :: byte) OR 0x02) AND 0x01 = 0x01 \<longleftrightarrow> c"
  "((if c then 0x01 else 0x00 :: byte) OR 0x02) AND 0x02 \<noteq> 0"
  by (cases c; simp)+

lemma inflate_deflate:
  assumes "deflateRaw P d = Inr z" and "zlib_roundtrip P d"
  shows "inflateRaw P z = Inr d"
  using assms
  by (auto simp: deflateRaw_def inflateRaw_def zlib_roundtrip_def split: if_splits option.splits)

lemma sealed_decodes:
  assumes sl: "seal P s sk opts = Inr tok" and len: "length tok < 2 ^ 32"
    and z: "zlib_roundtrip P (TextEncoder_encode s)"
  shows "\<exists>r. decodeBinary P tok = Inr r"
proof -
  define cmp where "cmp = (case opt_compress opts of Some c \<Rightarrow> c | None \<Rightarrow> False)"
  from seal_layout [OF sl] obtain n nb pl sg where
    n: "is_uint48 n" and rnd: "randomBytes P 4 = Inr nb"
    and pl: "(if cmp then deflateRaw P (TextEncoder_encode s) else Inr (TextEncoder_encode s)) = Inr pl"
    and tok: "tok = layout ((if cmp then 0x01 else 0x00) OR 0x02) (BigInt n) nb pl @ [0x01] @ sg"
    unfolding cmp_def by blast
  have big: "0 \<le> BigInt n" "BigInt n < 2 ^ 48" using is_uint48_BigInt [OF n] by auto
  have nb: "length nb = 4" using rnd by (rule randomBytes_length)
  have pll: "length pl < 2 ^ 32"
    using len length_layout [of pl "(if cmp then 0x01 else 0x00) OR 0x02" "BigInt n" nb]
    by (simp add: tok)
  have fb: "(((if cmp then 0x01 else 0x00 :: byte) OR 0x02) AND 0x01 = 0x01) = cmp"
    by (rule seal_flag_bits)
  have inf: "\<exists>u. (if cmp then inflateRaw P pl else Inr pl) = Inr u"
  proof (cases cmp)
    case True
    with pl have "deflateRaw P (TextEncoder_encode s) = Inr pl" by simp
    then have "inflateRaw P pl = Inr (TextEncoder_encode s)" using z by (rule inflate_deflate)
    then show ?thesis using True by simp
  next
    case False
    then show ?thesis by simp
  qed
  then obtain u where u: "(if cmp then inflateRaw P pl else Inr pl) = Inr u" ..
  show ?thesis
    unfolding tok
    by (subst decodeBinary_of_layout [OF big nb pll]) (simp only: fb u sum.case, blast)
qed

subsection \<open>What verifyAndDecode checks\<close>

lemma verifyAndDecode_structure:
  assumes mid: "length mid = 12" and sealed: "mid ! 1 AND 0x02 \<noteq> 0" and pl: "length pl < 2 ^ 32"
  shows "verifyAndDecode P (MAGIC @ mid @ uvarintEncode_loop (of_nat (length pl)) [] @ pl @ st # sg) pk
       = (if sg = [] then Inl MissingSignatureData
          else if st \<noteq> 0x01 then Inl (UnsupportedSealType st)
          else if length sg \<noteq> 64 then Inl (InvalidSignatureLength (length sg))
          else case verifyEd25519 P (MAGIC @ mid @ uvarintEncode_loop (of_nat (length pl)) [] @ pl) sg pk of
                 Inl e \<Rightarrow> Inl e
               | Inr ok \<Rightarrow>
                   if \<not> ok then Inl SignatureVerificationFailed
                   else decodeBinary P (MAGIC @ mid @ uvarintEncode_loop (of_nat (length pl)) [] @ pl))"
proof -
  define lv where "lv = uvarintEncode_loop (of_nat (length pl) :: 32 word) []"
  define C where "C = MAGIC @ mid @ lv @ pl"
  define bs where "bs = C @ st # sg"
  have lv_ne: "lv \<noteq> []" by (simp add: lv_def uvarintEncode_loop_nonempty)
  have lenC: "length C = 16 + length lv + length pl" by (simp add: C_def MAGIC_def mid)
  have len: "length bs = 16 + length lv + length pl + 1 + length sg" by (simp add: bs_def lenC)
  have len18: "\<not> length bs < 18" using lv_ne len by (cases lv) simp_all
  have hd: "bs ! 0 = 0x54" "bs ! 1 = 0x50" "bs ! 2 = 0x55" "bs ! 3 = 0x37"
    by (simp_all add: bs_def C_def MAGIC_def)
  have fl: "bs ! 5 = mid ! 1" using mid by (simp add: bs_def C_def MAGIC_def nth_append)
  have var: "uvarintDecode bs 16 = Inr (length pl, length lv)"
  proof -
    have "bs = (MAGIC @ mid) @ lv @ (pl @ st # sg)" by (simp add: bs_def C_def)
    moreover have "length (MAGIC @ mid) = 16" by (simp add: MAGIC_def mid)
    ultimately show ?thesis
      using uvarintDecode_uvarintEncode [OF pl, of "MAGIC @ mid" 16 "pl @ st # sg"]
      by (simp add: lv_def)
  qed
  have fit: "\<not> 16 + length lv + length pl > length bs" using len by simp
  have content: "slice_of bs 0 (16 + length lv + length pl) = C"
    by (simp add: slice_of_def bs_def lenC)
  have missing: "(length bs \<le> 16 + length lv + length pl + 1) = (sg = [])" using len by auto
  have st: "bs ! (16 + length lv + length pl) = st"
    using lenC by (simp add: bs_def nth_append)
  have sg: "drop (16 + length lv + length pl + 1) bs = sg"
    using lenC by (simp add: bs_def)
  have "verifyAndDecode P bs pk
       = (if sg = [] then Inl MissingSignatureData
          else if st \<noteq> 0x01 then Inl (UnsupportedSealType st)
          else if length sg \<noteq> 64 then Inl (InvalidSignatureLength (length sg))
          else case verifyEd25519 P C sg pk of
                 Inl e \<Rightarrow> Inl e
               | Inr ok \<Rightarrow> if \<not> ok then Inl SignatureVerificationFailed else decodeBinary P C)"
    unfolding verifyAndDecode_def
    by (simp only: len18 hd fl sealed var fit content missing st sg Let_def if_False simp_thms
          sum.case prod.case)
  then show ?thesis by (simp only: bs_def C_def lv_def append_assoc)
qed

lemma signEd25519_facts:
  assumes "signEd25519 P C sk = Inr sg"
  shows "has_require P" and "signs_64_bytes P \<Longrightarrow> length sg = 64"
  using assms
  by (auto simp: signEd25519_def signs_64_bytes_def split: if_splits option.splits key.splits)

lemma verifyAndDecode_tampered_fails:
  assumes sg: "length sg = 64" and i: "i < length C"
    and rej: "crypto_verify P (C[i := v]) pk sg \<noteq> Some True"
  shows "\<exists>e. verifyAndDecode P ((C @ [0x01] @ sg)[i := v]) pk = Inl e"
proof (rule ccontr)
  assume "\<not> ?thesis"
  then obtain r where ok: "verifyAndDecode P ((C @ [0x01] @ sg)[i := v]) pk = Inr r"
    by (cases "verifyAndDecode P ((C @ [0x01] @ sg)[i := v]) pk") auto
  define bs where "bs = (C @ [0x01] @ sg)[i := v]"
  have bs: "bs = C[i := v] @ [0x01] @ sg" using i by (simp add: bs_def list_update_append)
  have len: "length bs = length C + 65" by (simp add: bs sg)
  from ok obtain n k where var: "uvarintDecode bs 16 = Inr (n, k)"
    unfolding bs_def [symmetric]
    by (auto simp: verifyAndDecode_def Let_def split: if_splits sum.splits)
  from ok var have l64: "length (drop (16 + k + n + 1) bs) = 64"
    unfolding bs_def [symmetric]
    by (auto simp: verifyAndDecode_def Let_def split: if_splits sum.splits)
  then have pe: "16 + k + n = length C" using len by simp
  have content: "slice_of bs 0 (16 + k + n) = C[i := v]" by (simp add: slice_of_def pe bs)
  have sig: "drop (16 + k + n + 1) bs = sg" by (simp add: pe bs)
  from ok var have "verifyEd25519 P (slice_of bs 0 (16 + k + n)) (drop (16 + k + n + 1) bs) pk = Inr True"
    unfolding bs_def [symmetric]
    by (auto simp: verifyAndDecode_def Let_def split: if_splits sum.splits)
  then have "verifyEd25519 P (C[i := v]) sg pk = Inr True" by (simp only: content sig)
  with rej show False
    by (auto simp: verifyEd25519_def split: if_splits option.splits)
qed

lemma verifyAndDecode_rejects:
  assumes mid: "length mid = 12" and sealed: "mid ! 1 AND 0x02 \<noteq> 0" and pl: "length pl < 2 ^ 32"
    and sg: "length sg = 64" and req: "has_require P"
    and rej: "crypto_verify P (MAGIC @ mid @ uvarintEncode_loop (of_nat (length pl)) [] @ pl) pk sg \<noteq> Some True"
  shows "verifyAndDecode P (MAGIC @ mid @ uvarintEncode_loop (of_nat (length pl)) [] @ pl @ 0x01 # sg) pk
       = Inl SignatureVerificationFailed"
proof -
  have ne: "sg \<noteq> []" using sg by auto
  have v: "verifyEd25519 P (MAGIC @ mid @ uvarintEncode_loop (of_nat (length pl)) [] @ pl) sg pk = Inr False"
    using rej req by (auto simp: verifyEd25519_def split: option.splits)
  show ?thesis
    by (subst verifyAndDecode_structure [OF mid sealed pl]) (simp add: ne sg v)
qed

lemma verifyAndDecode_accepts:
  assumes mid: "length mid = 12" and sealed: "mid ! 1 AND 0x02 \<noteq> 0" and pl: "length pl < 2 ^ 32"
    and sg: "length sg = 64" and req: "has_require P"
    and acc: "crypto_verify P (MAGIC @ mid @ uvarintEncode_loop (of_nat (length pl)) [] @ pl) pk sg = Some True"
  shows "verifyAndDecode P (MAGIC @ mid @ uvarintEncode_loop (of_nat (length pl)) [] @ pl @ 0x01 # sg) pk
       = decodeBinary P (MAGIC @ mid @ uvarintEncode_loop (of_nat (length pl)) [] @ pl)"
proof -
  have ne: "sg \<noteq> []" using sg by auto
  have v: "verifyEd25519 P (MAGIC @ mid @ uvarintEncode_loop (of_nat (length pl)) [] @ pl) sg pk = Inr True"
    using acc req by (auto simp: verifyEd25519_def split: option.splits)
  show ?thesis
    by (subst verifyAndDecode_structure [OF mid sealed pl]) (simp add: ne sg v)
qed

lemma layout_as_mid:
  "layout fl e nb pl = MAGIC @ ([VER, fl] @ writeU48 e @ nb) @ uvarintEncode_loop (of_nat (length pl)) [] @ pl"
  by (simp add: layout_def)

lemma length_layout_eq:
  "length nb = 4 \<Longrightarrow>
   length (layout fl e nb pl) = 16 + length (uvarintEncode_loop (of_nat (length pl) :: 32 word) []) + length pl"
  by (simp add: layout_def MAGIC_def)

lemma sealed_parts:
  assumes sl: "seal P s sk opts = Inr tok" and s64: "signs_64_bytes P" and len: "length tok < 2 ^ 32"
  shows "\<exists>e nb pl sg.
           tok = layout ((if (case opt_compress opts of Some c \<Rightarrow> c | None \<Rightarrow> False)
                          then 0x01 else 0x00) OR 0x02) e nb pl @ [0x01] @ sg
         \<and> 0 \<le> e \<and> e < 2 ^ 48 \<and> length nb = 4 \<and> length pl < 2 ^ 32 \<and> length sg = 64
         \<and> has_require P
         \<and> (if (case opt_compress opts of Some c \<Rightarrow> c | None \<Rightarrow> False)
             then deflateRaw P (TextEncoder_encode s) else Inr (TextEncoder_encode s)) = Inr pl
         \<and> signed_region tok = layout ((if (case opt_compress opts of Some c \<Rightarrow> c | None \<Rightarrow> False)
                          then 0x01 else 0x00) OR 0x02) e nb pl
         \<and> signature_of tok = sg
         \<and> signEd25519 P (signed_region tok) sk = Inr sg
         \<and> resolve_epochMs s opts = Inr (Num (of_int e))
         \<and> uvarintDecode tok 16
             = Inr (length pl, length (uvarintEncode_loop (of_nat (length pl) :: 32 word) []))"
proof -
  define fl :: byte where
    "fl = (if (case opt_compress opts of Some c \<Rightarrow> c | None \<Rightarrow> False) then 0x01 else 0x00) OR 0x02"
  from seal_layout [OF sl] obtain n nb pl sg where
    n: "is_uint48 n" and ep: "resolve_epochMs s opts = Inr n" and rnd: "randomBytes P 4 = Inr nb"
    and pl: "(if (case opt_compress opts of Some c \<Rightarrow> c | None \<Rightarrow> False)
              then deflateRaw P (TextEncoder_encode s) else Inr (TextEncoder_encode s)) = Inr pl"
    and sg: "signEd25519 P (layout fl (BigInt n) nb pl) sk = Inr sg"
    and tok: "tok = layout fl (BigInt n) nb pl @ [0x01] @ sg"
    unfolding fl_def by blast
  have big: "0 \<le> BigInt n" "BigInt n < 2 ^ 48" "n = Num (of_int (BigInt n))"
    using is_uint48_BigInt [OF n] by auto
  have nb: "length nb = 4" using rnd by (rule randomBytes_length)
  have pll: "length pl < 2 ^ 32"
    using len length_layout [of pl fl "BigInt n" nb] by (simp add: tok)
  have sg64: "length sg = 64" using signEd25519_facts(2) [OF sg s64] .
  have req: "has_require P" using signEd25519_facts(1) [OF sg] .
  have sr: "signed_region tok = layout fl (BigInt n) nb pl"
    by (simp add: signed_region_def tok sg64)
  have so: "signature_of tok = sg"
    by (simp add: signature_of_def tok sg64)
  have var: "uvarintDecode tok 16
             = Inr (length pl, length (uvarintEncode_loop (of_nat (length pl) :: 32 word) []))"
  proof -
    have "tok = (MAGIC @ [VER, fl] @ writeU48 (BigInt n) @ nb)
                @ uvarintEncode_loop (of_nat (length pl)) [] @ (pl @ [0x01] @ sg)"
      by (simp add: tok layout_def)
    moreover have "length (MAGIC @ [VER, fl] @ writeU48 (BigInt n) @ nb) = 16"
      by (simp add: MAGIC_def nb)
    ultimately show ?thesis
      using uvarintDecode_uvarintEncode [OF pll, of "MAGIC @ [VER, fl] @ writeU48 (BigInt n) @ nb" 16
          "pl @ [0x01] @ sg"]
      by simp
  qed
  have ep': "resolve_epochMs s opts = Inr (Num (of_int (BigInt n)))" using ep big(3) by simp
  show ?thesis
    unfolding fl_def [symmetric]
    using tok big(1,2) nb pll sg64 req pl sr so sg ep' var
    by (intro exI [of _ "BigInt n"] exI [of _ nb] exI [of _ pl] exI [of _ sg]) simp
qed


lemma length_MAGIC: "length MAGIC = 4"
  by (simp add: MAGIC_def)

lemma upd_after: "length xs \<le> i \<Longrightarrow> (xs @ ys)[i := v] = xs @ ys[i - length xs := v]"
  by (simp add: list_update_append)

lemma upd_within: "i < length xs \<Longrightarrow> (xs @ ys)[i := v] = xs[i := v] @ ys"
  by (simp add: list_update_append)

lemma tamper_magic:
  assumes i: "i < 4" and v: "v \<noteq> MAGIC ! i" and len: "length rest \<ge> 14"
  shows "verifyAndDecode P ((MAGIC @ rest)[i := v]) pk = Inl BadMagic"
proof -
  define bs where "bs = (MAGIC @ rest)[i := v]"
  have l: "\<not> length bs < 18" using len by (simp add: bs_def length_MAGIC)
  have m: "bs ! 0 \<noteq> 0x54 \<or> bs ! 1 \<noteq> 0x50 \<or> bs ! 2 \<noteq> 0x55 \<or> bs ! 3 \<noteq> 0x37"
  proof -
    from i consider "i = 0" | "i = 1" | "i = 2" | "i = 3" by linarith
    then show ?thesis
      using v by cases (simp_all add: bs_def MAGIC_def)
  qed
  show ?thesis
    unfolding verifyAndDecode_def bs_def [symmetric]
    by (simp only: l m if_False if_True)
qed

lemma tamper_seal_bit:
  assumes v: "v AND 0x02 = 0" and len: "length rest \<ge> 14"
  shows "verifyAndDecode P ((MAGIC @ rest)[5 := v]) pk = Inl NotSealed"
proof -
  define bs where "bs = (MAGIC @ rest)[5 := v]"
  have l: "\<not> length bs < 18" using len by (simp add: bs_def MAGIC_def)
  have m: "\<not> (bs ! 0 \<noteq> 0x54 \<or> bs ! 1 \<noteq> 0x50 \<or> bs ! 2 \<noteq> 0x55 \<or> bs ! 3 \<noteq> 0x37)"
    by (simp add: bs_def MAGIC_def)
  have f: "bs ! 5 = v" using len by (simp add: bs_def MAGIC_def)
  show ?thesis
    unfolding verifyAndDecode_def bs_def [symmetric]
    by (simp only: l m f v Let_def if_False if_True simp_thms)
qed

lemma tamper_header:
  assumes mid: "length mid = 12" and sealed: "mid ! 1 AND 0x02 \<noteq> 0" and pl: "length pl < 2 ^ 32"
    and sg: "length sg = 64" and req: "has_require P"
    and i: "4 \<le> i" "i < 16" and keep: "i = 5 \<longrightarrow> v AND 0x02 \<noteq> 0"
    and rej: "crypto_verify P ((MAGIC @ mid @ uvarintEncode_loop (of_nat (length pl)) [] @ pl)[i := v]) pk sg
              \<noteq> Some True"
  shows "verifyAndDecode P ((MAGIC @ mid @ uvarintEncode_loop (of_nat (length pl)) [] @ pl @ 0x01 # sg)[i := v]) pk
       = Inl SignatureVerificationFailed"
proof -
  define lv where "lv = uvarintEncode_loop (of_nat (length pl) :: 32 word) []"
  have u: "(MAGIC @ mid @ rest)[i := v] = MAGIC @ mid[i - 4 := v] @ rest" for rest
  proof -
    have "(MAGIC @ (mid @ rest))[i := v] = MAGIC @ (mid @ rest)[i - length MAGIC := v]"
      using i by (intro upd_after) (simp add: length_MAGIC)
    also have "(mid @ rest)[i - length MAGIC := v] = mid[i - length MAGIC := v] @ rest"
      using i mid by (intro upd_within) (simp add: length_MAGIC)
    finally show ?thesis by (simp add: length_MAGIC)
  qed
  have a: "(MAGIC @ mid @ lv @ pl @ 0x01 # sg)[i := v] = MAGIC @ mid[i - 4 := v] @ lv @ pl @ 0x01 # sg"
    by (rule u)
  have b: "(MAGIC @ mid @ lv @ pl)[i := v] = MAGIC @ mid[i - 4 := v] @ lv @ pl"
    by (rule u)
  have mid': "length (mid[i - 4 := v]) = 12" using mid by simp
  have sealed': "mid[i - 4 := v] ! 1 AND 0x02 \<noteq> 0"
  proof (cases "i = 5")
    case True
    then show ?thesis using keep mid by simp
  next
    case False
    then have "i - 4 \<noteq> 1" using i by arith
    then show ?thesis using sealed by simp
  qed
  show ?thesis
    unfolding lv_def [symmetric] a
    using verifyAndDecode_rejects [OF mid' sealed' pl sg req, of pk] rej
    unfolding lv_def [symmetric] b by simp
qed

lemma tamper_payload:
  assumes mid: "length mid = 12" and sealed: "mid ! 1 AND 0x02 \<noteq> 0" and pl: "length pl < 2 ^ 32"
    and sg: "length sg = 64" and req: "has_require P"
    and i: "16 + length (uvarintEncode_loop (of_nat (length pl) :: 32 word) []) \<le> i"
    and rej: "crypto_verify P ((MAGIC @ mid @ uvarintEncode_loop (of_nat (length pl)) [] @ pl)[i := v]) pk sg
              \<noteq> Some True"
  shows "verifyAndDecode P ((MAGIC @ mid @ uvarintEncode_loop (of_nat (length pl)) [] @ pl @ 0x01 # sg)[i := v]) pk
       = Inl SignatureVerificationFailed
       \<or> \<not> i < length (MAGIC @ mid @ uvarintEncode_loop (of_nat (length pl) :: 32 word) [] @ pl)"
proof (cases "i < length (MAGIC @ mid @ uvarintEncode_loop (of_nat (length pl) :: 32 word) [] @ pl)")
  case False
  then show ?thesis by simp
next
  case True
  define lv where "lv = uvarintEncode_loop (of_nat (length pl) :: 32 word) []"
  define j where "j = i - (16 + length lv)"
  have j: "j < length pl" using True i mid by (simp add: j_def lv_def length_MAGIC)
  have lpre: "length (MAGIC @ mid @ lv) = 16 + length lv" by (simp add: length_MAGIC mid)
  have u: "(MAGIC @ mid @ lv @ pl @ rest)[i := v] = MAGIC @ mid @ lv @ pl[j := v] @ rest" for rest
  proof -
    have "((MAGIC @ mid @ lv) @ (pl @ rest))[i := v]
        = (MAGIC @ mid @ lv) @ (pl @ rest)[i - length (MAGIC @ mid @ lv) := v]"
      using i unfolding lv_def [symmetric] by (intro upd_after) (simp only: lpre)
    also have "(pl @ rest)[i - length (MAGIC @ mid @ lv) := v] = pl[j := v] @ rest"
      using j unfolding lpre j_def by (intro upd_within)
    finally show ?thesis by simp
  qed
  have a: "(MAGIC @ mid @ lv @ pl @ 0x01 # sg)[i := v] = MAGIC @ mid @ lv @ pl[j := v] @ 0x01 # sg"
    by (rule u)
  have b: "(MAGIC @ mid @ lv @ pl)[i := v] = MAGIC @ mid @ lv @ pl[j := v]"
    using u [of "[]"] by simp
  have pl': "length (pl[j := v]) < 2 ^ 32" using pl by simp
  have lv': "uvarintEncode_loop (of_nat (length (pl[j := v])) :: 32 word) [] = lv" by (simp add: lv_def)
  have "verifyAndDecode P (MAGIC @ mid @ lv @ pl[j := v] @ 0x01 # sg) pk = Inl SignatureVerificationFailed"
    using verifyAndDecode_rejects [OF mid sealed pl' sg req, of pk] rej
    unfolding lv' lv_def [symmetric] b by simp
  then show ?thesis unfolding lv_def [symmetric] a by simp
qed


lemma sealed_as_mid:
  assumes sl: "seal P s sk opts = Inr tok" and s64: "signs_64_bytes P" and len: "length tok < 2 ^ 32"
  shows "\<exists>mid pl sg.
           tok = MAGIC @ mid @ uvarintEncode_loop (of_nat (length pl)) [] @ pl @ 0x01 # sg
         \<and> signed_region tok = MAGIC @ mid @ uvarintEncode_loop (of_nat (length pl)) [] @ pl
         \<and> signature_of tok = sg
         \<and> length mid = 12 \<and> mid ! 1 AND 0x02 \<noteq> 0 \<and> length pl < 2 ^ 32 \<and> length sg = 64
         \<and> has_require P
         \<and> uvarintDecode tok 16
             = Inr (length pl, length (uvarintEncode_loop (of_nat (length pl) :: 32 word) []))"
proof -
  define fl :: byte where
    "fl = (if (case opt_compress opts of Some c \<Rightarrow> c | None \<Rightarrow> False) then 0x01 else 0x00) OR 0x02"
  from sealed_parts [OF sl s64 len] obtain e nb pl sg where
    tok: "tok = layout fl e nb pl @ [0x01] @ sg" and nb: "length nb = 4" and pl: "length pl < 2 ^ 32"
    and sg: "length sg = 64" and req: "has_require P"
    and sr: "signed_region tok = layout fl e nb pl" and so: "signature_of tok = sg"
    and var: "uvarintDecode tok 16
             = Inr (length pl, length (uvarintEncode_loop (of_nat (length pl) :: 32 word) []))"
    unfolding fl_def by blast
  define mid where "mid = [VER, fl] @ writeU48 e @ nb"
  have lay: "layout fl e nb pl = MAGIC @ mid @ uvarintEncode_loop (of_nat (length pl)) [] @ pl"
    by (simp add: layout_def mid_def)
  have m12: "length mid = 12" by (simp add: mid_def nb)
  have m1: "mid ! 1 AND 0x02 \<noteq> 0"
    using seal_flag_bits(2) [of "case opt_compress opts of Some c \<Rightarrow> c | None \<Rightarrow> False"]
    by (simp add: mid_def fl_def)
  show ?thesis
    using tok sr so m12 m1 pl sg req var unfolding lay
    by (intro exI [of _ mid] exI [of _ pl] exI [of _ sg]) simp
qed

lemma sealed_wrong_key:
  assumes sl: "seal P s sk opts = Inr tok" and s64: "signs_64_bytes P" and len: "length tok < 2 ^ 32"
    and wrong: "crypto_verify P (signed_region tok) pk' (signature_of tok) \<noteq> Some True"
  shows "verifyAndDecode P tok pk' = Inl SignatureVerificationFailed"
proof -
  from sealed_as_mid [OF sl s64 len] obtain mid pl sg where
    tok: "tok = MAGIC @ mid @ uvarintEncode_loop (of_nat (length pl)) [] @ pl @ 0x01 # sg"
    and sr: "signed_region tok = MAGIC @ mid @ uvarintEncode_loop (of_nat (length pl)) [] @ pl"
    and so: "signature_of tok = sg"
    and mid: "length mid = 12" and sealed: "mid ! 1 AND 0x02 \<noteq> 0" and pl: "length pl < 2 ^ 32"
    and sg: "length sg = 64" and req: "has_require P"
    by blast
  show ?thesis
    unfolding tok using wrong unfolding sr so
    by (intro verifyAndDecode_rejects [OF mid sealed pl sg req])
qed

lemma sealed_tampered:
  assumes sl: "seal P s sk opts = Inr tok" and s64: "signs_64_bytes P" and len: "length tok < 2 ^ 32"
  shows "i < 4 \<Longrightarrow> v \<noteq> tok ! i \<Longrightarrow> verifyAndDecode P (tok[i := v]) pk = Inl BadMagic"
    and "v AND 0x02 = 0 \<Longrightarrow> verifyAndDecode P (tok[5 := v]) pk = Inl NotSealed"
    and "4 \<le> i \<Longrightarrow> i < 16 \<Longrightarrow> (i = 5 \<longrightarrow> v AND 0x02 \<noteq> 0) \<Longrightarrow>
           crypto_verify P ((signed_region tok)[i := v]) pk (signature_of tok) \<noteq> Some True \<Longrightarrow>
           verifyAndDecode P (tok[i := v]) pk = Inl SignatureVerificationFailed"
    and "uvarintDecode tok 16 = Inr (n, k) \<Longrightarrow> 16 + k \<le> i \<Longrightarrow> i < length (signed_region tok) \<Longrightarrow>
           crypto_verify P ((signed_region tok)[i := v]) pk (signature_of tok) \<noteq> Some True \<Longrightarrow>
           verifyAndDecode P (tok[i := v]) pk = Inl SignatureVerificationFailed"
proof -
  from sealed_as_mid [OF sl s64 len] obtain mid pl sg where
    tok: "tok = MAGIC @ mid @ uvarintEncode_loop (of_nat (length pl)) [] @ pl @ 0x01 # sg"
    and sr: "signed_region tok = MAGIC @ mid @ uvarintEncode_loop (of_nat (length pl)) [] @ pl"
    and so: "signature_of tok = sg"
    and mid: "length mid = 12" and sealed: "mid ! 1 AND 0x02 \<noteq> 0" and pl: "length pl < 2 ^ 32"
    and sg: "length sg = 64" and req: "has_require P"
    and var': "uvarintDecode tok 16
             = Inr (length pl, length (uvarintEncode_loop (of_nat (length pl) :: 32 word) []))"
    by blast
  have rest: "length (mid @ uvarintEncode_loop (of_nat (length pl) :: 32 word) [] @ pl @ 0x01 # sg) \<ge> 14"
    using mid sg by simp
  show "verifyAndDecode P (tok[i := v]) pk = Inl BadMagic" if "i < 4" "v \<noteq> tok ! i"
  proof -
    have "tok ! i = MAGIC ! i" using that(1) by (simp add: tok nth_append length_MAGIC)
    then have vm: "v \<noteq> MAGIC ! i" using that(2) by simp
    show ?thesis
      unfolding tok by (rule tamper_magic [OF that(1) vm rest])
  qed
  show "verifyAndDecode P (tok[5 := v]) pk = Inl NotSealed" if "v AND 0x02 = 0"
    unfolding tok using that rest by (rule tamper_seal_bit)
  show "verifyAndDecode P (tok[i := v]) pk = Inl SignatureVerificationFailed"
    if "4 \<le> i" "i < 16" "i = 5 \<longrightarrow> v AND 0x02 \<noteq> 0"
      "crypto_verify P ((signed_region tok)[i := v]) pk (signature_of tok) \<noteq> Some True"
  proof -
    have rejC: "crypto_verify P ((MAGIC @ mid @ uvarintEncode_loop (of_nat (length pl)) [] @ pl)[i := v]) pk sg
                \<noteq> Some True"
      using that(4) by (simp only: sr so simp_thms)
    show ?thesis
      unfolding tok by (rule tamper_header [OF mid sealed pl sg req that(1,2,3) rejC])
  qed
  show "verifyAndDecode P (tok[i := v]) pk = Inl SignatureVerificationFailed"
    if "uvarintDecode tok 16 = Inr (n, k)" "16 + k \<le> i" "i < length (signed_region tok)"
      "crypto_verify P ((signed_region tok)[i := v]) pk (signature_of tok) \<noteq> Some True"
  proof -
    have k: "k = length (uvarintEncode_loop (of_nat (length pl) :: 32 word) [])"
      using that(1) var' by auto
    have rejC: "crypto_verify P ((MAGIC @ mid @ uvarintEncode_loop (of_nat (length pl)) [] @ pl)[i := v]) pk sg
                \<noteq> Some True"
      using that(4) by (simp only: sr so simp_thms)
    have iC: "i < length (MAGIC @ mid @ uvarintEncode_loop (of_nat (length pl) :: 32 word) [] @ pl)"
      using that(3) by (simp only: sr)
    show ?thesis
      using tamper_payload [OF mid sealed pl sg req, of i v pk] that(2) rejC iC
      unfolding tok k by blast
  qed
qed

subsection \<open>Encoding and then decoding\<close>

lemma encode_then_decode:
  assumes n: "is_uint48 n" and ep: "resolve_epochMs s opts = Inr n"
    and rnd: "randomBytes P 4 = Inr nb"
    and pl: "(if (case opt_compress opts of Some c \<Rightarrow> c | None \<Rightarrow> False)
              then deflateRaw P (TextEncoder_encode s) else Inr (TextEncoder_encode s)) = Inr pl"
    and len: "length pl < 2 ^ 32"
    and z: "(case opt_compress opts of Some c \<Rightarrow> c | None \<Rightarrow> False)
            \<longrightarrow> zlib_roundtrip P (TextEncoder_encode s)"
  shows "\<exists>out. encodeBinary P s opts = Inr out
         \<and> decodeBinary P out
             = Inr \<lparr>version = js ''tpsuid7rb'', epochMs = BigInt n,
                    compressed = (case opt_compress opts of Some c \<Rightarrow> c | None \<Rightarrow> False),
                    nonce = nonce_value nb, tps = TextDecoder_decode (TextEncoder_encode s)\<rparr>"
proof -
  define cmp where "cmp = (case opt_compress opts of Some c \<Rightarrow> c | None \<Rightarrow> False)"
  define fl :: byte where "fl = (if cmp then 0x01 else 0x00)"
  have enc: "encodeBinary P s opts = Inr (layout fl (BigInt n) nb pl)"
    using encodeBinary_layout [OF n ep rnd pl] by (simp add: layout_def fl_def cmp_def)
  have big: "0 \<le> BigInt n" "BigInt n < 2 ^ 48" using is_uint48_BigInt [OF n] by auto
  have nb: "length nb = 4" using rnd by (rule randomBytes_length)
  have fb: "(fl AND 0x01 = 0x01) = cmp" by (cases cmp) (simp_all add: fl_def)
  have u: "(if cmp then inflateRaw P pl else Inr pl) = Inr (TextEncoder_encode s)"
  proof (cases cmp)
    case True
    with pl have "deflateRaw P (TextEncoder_encode s) = Inr pl" by (simp add: cmp_def)
    moreover have "zlib_roundtrip P (TextEncoder_encode s)" using z True by (simp add: cmp_def)
    ultimately have "inflateRaw P pl = Inr (TextEncoder_encode s)" by (rule inflate_deflate)
    then show ?thesis using True by simp
  next
    case False
    then show ?thesis using pl by (simp add: cmp_def)
  qed
  have dec: "decodeBinary P (layout fl (BigInt n) nb pl)
           = Inr \<lparr>version = js ''tpsuid7rb'', epochMs = BigInt n, compressed = cmp,
                  nonce = nonce_value nb, tps = TextDecoder_decode (TextEncoder_encode s)\<rparr>"
    using decodeBinary_of_layout [OF big nb len, of P fl "[]"] by (simp add: fb u)
  show ?thesis using enc dec by (simp add: cmp_def)
qed

lemma utf8_bom_a: "TextEncoder_encode [0xFEFF, 0x61] = [0xEF, 0xBB, 0xBF, 0x61]"
  by (simp add: TextEncoder_encode_def utf8_encode_scalar_def is_high_surrogate_def
        is_low_surrogate_def)

lemma decode_bom_a: "TextDecoder_decode [0xEF, 0xBB, 0xBF, 0x61] = [0x61]"
  by (simp add: TextDecoder_decode_def utf16_encode_scalar_def)

text \<open>
  What \<open>seal\<close> signs, and what \<open>verifyAndDecode\<close> returns for a token that \<open>seal\<close>
  returned when the key verifies the signature.
\<close>

lemma seal_signs_signed_region:
  assumes sl: "seal P s sk opts = Inr tok" and s64: "signs_64_bytes P" and len: "length tok < 2 ^ 32"
  shows "tok = signed_region tok @ [0x01] @ signature_of tok"
    and "signEd25519 P (signed_region tok) sk = Inr (signature_of tok)"
    and "signed_region tok ! 5 AND 0x02 = 0x02"
    and "\<exists>n k. uvarintDecode tok 16 = Inr (n, k) \<and> length (signed_region tok) = 16 + k + n"
proof -
  define fl :: byte where
    "fl = (if (case opt_compress opts of Some c \<Rightarrow> c | None \<Rightarrow> False) then 0x01 else 0x00) OR 0x02"
  from sealed_parts [OF sl s64 len] obtain e nb pl sg where
    tok: "tok = layout fl e nb pl @ [0x01] @ sg" and nb: "length nb = 4"
    and sr: "signed_region tok = layout fl e nb pl" and so: "signature_of tok = sg"
    and sg: "signEd25519 P (signed_region tok) sk = Inr sg"
    and var: "uvarintDecode tok 16
             = Inr (length pl, length (uvarintEncode_loop (of_nat (length pl) :: 32 word) []))"
    unfolding fl_def by blast
  show "tok = signed_region tok @ [0x01] @ signature_of tok" using tok sr so by simp
  show "signEd25519 P (signed_region tok) sk = Inr (signature_of tok)" using sg so by simp
  have "layout fl e nb pl ! 5 = fl" by (simp add: layout_def MAGIC_def)
  moreover have "fl AND 0x02 = 0x02"
    by (cases "case opt_compress opts of Some c \<Rightarrow> c | None \<Rightarrow> False") (simp_all add: fl_def)
  ultimately show "signed_region tok ! 5 AND 0x02 = 0x02" by (simp add: sr)
  show "\<exists>n k. uvarintDecode tok 16 = Inr (n, k) \<and> length (signed_region tok) = 16 + k + n"
    using var by (simp add: sr length_layout_eq [OF nb])
qed

lemma verify_after_seal:
  assumes sl: "seal P s sk opts = Inr tok" and s64: "signs_64_bytes P" and len: "length tok < 2 ^ 32"
    and z: "(case opt_compress opts of Some c \<Rightarrow> c | None \<Rightarrow> False)
            \<longrightarrow> zlib_roundtrip P (TextEncoder_encode s)"
    and ok: "crypto_verify P (signed_region tok) pk (signature_of tok) = Some True"
  shows "\<exists>r. verifyAndDecode P tok pk = Inr r
           \<and> tps r = TextDecoder_decode (TextEncoder_encode s)
           \<and> compressed r = (case opt_compress opts of Some c \<Rightarrow> c | None \<Rightarrow> False)
           \<and> resolve_epochMs s opts = Inr (Num (of_int (epochMs r)))"
proof -
  define cmp where "cmp = (case opt_compress opts of Some c \<Rightarrow> c | None \<Rightarrow> False)"
  define fl :: byte where "fl = (if cmp then 0x01 else 0x00) OR 0x02"
  from sealed_parts [OF sl s64 len] obtain e nb pl sg where
    tok: "tok = layout fl e nb pl @ [0x01] @ sg"
    and e: "0 \<le> e" "e < 2 ^ 48" and nb: "length nb = 4" and pll: "length pl < 2 ^ 32"
    and sg: "length sg = 64" and req: "has_require P"
    and pl: "(if cmp then deflateRaw P (TextEncoder_encode s) else Inr (TextEncoder_encode s)) = Inr pl"
    and sr: "signed_region tok = layout fl e nb pl" and so: "signature_of tok = sg"
    and ep: "resolve_epochMs s opts = Inr (Num (of_int e))"
    unfolding fl_def cmp_def by blast
  define mid where "mid = [VER, fl] @ writeU48 e @ nb"
  have lay: "layout fl e nb pl = MAGIC @ mid @ uvarintEncode_loop (of_nat (length pl)) [] @ pl"
    by (simp add: layout_def mid_def)
  have m12: "length mid = 12" by (simp add: mid_def nb)
  have m1: "mid ! 1 AND 0x02 \<noteq> 0" using seal_flag_bits(2) [of cmp] by (simp add: mid_def fl_def)
  have acc: "crypto_verify P (MAGIC @ mid @ uvarintEncode_loop (of_nat (length pl)) [] @ pl) pk sg = Some True"
    using ok by (simp add: sr so lay)
  have v: "verifyAndDecode P tok pk = decodeBinary P (layout fl e nb pl)"
    using verifyAndDecode_accepts [OF m12 m1 pll sg req acc] by (simp add: tok lay)
  have fb: "(fl AND 0x01 = 0x01) = cmp" unfolding fl_def by (rule seal_flag_bits)
  have u: "(if cmp then inflateRaw P pl else Inr pl) = Inr (TextEncoder_encode s)"
  proof (cases cmp)
    case True
    with pl have "deflateRaw P (TextEncoder_encode s) = Inr pl" by simp
    moreover have "zlib_roundtrip P (TextEncoder_encode s)" using z True by (simp add: cmp_def)
    ultimately have "inflateRaw P pl = Inr (TextEncoder_encode s)" by (rule inflate_deflate)
    then show ?thesis using True by simp
  next
    case False
    then show ?thesis using pl by simp
  qed
  have dec: "decodeBinary P (layout fl e nb pl)
           = Inr \<lparr>version = js ''tpsuid7rb'', epochMs = e, compressed = cmp,
                  nonce = nonce_value nb, tps = TextDecoder_decode (TextEncoder_encode s)\<rparr>"
    using decodeBinary_of_layout [OF e nb pll, of P fl "[]"] by (simp add: fb u)
  show ?thesis using v dec ep by (simp add: cmp_def)
qed

subsection \<open>The regular expression\<close>

lemma nullable_lang: "nullable r \<longleftrightarrow> [] \<in> lang r"
  by (induction r) (auto intro: star.star_empty)

lemma star_cons:
  assumes "x \<in> star A" and "x = u # w"
  shows "\<exists>a w'. w = a @ w' \<and> u # a \<in> A \<and> w' \<in> star A"
  using assms
proof (induction arbitrary: w rule: star.induct)
  case star_empty
  then show ?case by simp
next
  case (star_more a v)
  show ?case
  proof (cases a)
    case Nil
    with star_more show ?thesis by simp
  next
    case (Cons b a')
    with star_more.prems have "b = u" "w = a' @ v" by simp_all
    with Cons star_more.hyps show ?thesis by blast
  qed
qed

lemma lang_deriv: "lang (deriv u r) = {w. u # w \<in> lang r}"
proof (induction r)
  case (Seq r1 r2)
  show ?case
  proof (rule set_eqI)
    fix w
    have "u # w \<in> lang (Seq r1 r2) \<longleftrightarrow>
          (\<exists>a b. u # w = a @ b \<and> a \<in> lang r1 \<and> b \<in> lang r2)" by auto
    also have "\<dots> \<longleftrightarrow> ([] \<in> lang r1 \<and> u # w \<in> lang r2)
                  \<or> (\<exists>a' b. w = a' @ b \<and> u # a' \<in> lang r1 \<and> b \<in> lang r2)"
      by (auto simp: Cons_eq_append_conv) 
    finally show "w \<in> lang (deriv u (Seq r1 r2)) \<longleftrightarrow> w \<in> {w. u # w \<in> lang (Seq r1 r2)}"
      using Seq.IH by (auto simp: nullable_lang)
  qed
next
  case (Star r)
  show ?case
  proof (rule set_eqI)
    fix w
    have "u # w \<in> star (lang r) \<longleftrightarrow> (\<exists>a w'. w = a @ w' \<and> u # a \<in> lang r \<and> w' \<in> star (lang r))"
    proof
      assume "u # w \<in> star (lang r)"
      then show "\<exists>a w'. w = a @ w' \<and> u # a \<in> lang r \<and> w' \<in> star (lang r)"
        by (rule star_cons) simp
    next
      assume "\<exists>a w'. w = a @ w' \<and> u # a \<in> lang r \<and> w' \<in> star (lang r)"
      then obtain a w' where "w = a @ w'" "u # a \<in> lang r" "w' \<in> star (lang r)" by blast
      then show "u # w \<in> star (lang r)" using star.star_more [of "u # a" "lang r" w'] by simp
    qed
    then show "w \<in> lang (deriv u (Star r)) \<longleftrightarrow> w \<in> {w. u # w \<in> lang (Star r)}"
      using Star.IH by auto
  qed
qed auto

lemma regex_test_lang: "regex_test r s \<longleftrightarrow> s \<in> lang r"
proof -
  have "nullable (foldl (\<lambda>r' u. deriv u r') r s) \<longleftrightarrow> s \<in> lang r" for r
    by (induction s arbitrary: r) (simp_all add: nullable_lang lang_deriv)
  then show ?thesis by (simp add: regex_test_def)
qed

lemma Lit_Cons: "Lit (u # p) = Seq (Class [(u, u)]) (Lit p)"
  by (simp add: Lit_def)

lemma lang_single: "lang (Class [(u, u)]) = {[u]}"
  by (auto simp: in_class_def)

lemma lang_Lit: "lang (Lit p) = {p}"
proof (induction p)
  case Nil
  show ?case by (simp add: Lit_def)
next
  case (Cons u p)
  have "lang (Lit (u # p)) = {a @ b | a b. a \<in> {[u]} \<and> b \<in> {p}}"
    by (simp only: Lit_Cons lang.simps(5) lang_single Cons.IH)
  then show ?case by simp
qed

lemma star_of_class:
  "star (lang (Class rs)) = {w. \<forall>u \<in> set w. in_class rs u}"
proof (rule set_eqI, rule iffI)
  fix w assume "w \<in> star (lang (Class rs))"
  then show "w \<in> {w. \<forall>u \<in> set w. in_class rs u}"
    by (induction rule: star.induct) auto
next
  fix w assume "w \<in> {w. \<forall>u \<in> set w. in_class rs u}"
  then show "w \<in> star (lang (Class rs))"
  proof (induction w)
    case Nil
    show ?case by (rule star.star_empty)
  next
    case (Cons u w)
    then have "[u] \<in> lang (Class rs)" "w \<in> star (lang (Class rs))" by auto
    then have "[u] @ w \<in> star (lang (Class rs))" by (rule star.star_more)
    then show ?case by simp
  qed
qed

lemma lang_Plus_Class:
  "lang (Plus (Class rs)) = {w. w \<noteq> [] \<and> (\<forall>u \<in> set w. in_class rs u)}"
proof -
  have "lang (Plus (Class rs))
      = {a @ b | a b. a \<in> lang (Class rs) \<and> b \<in> {w. \<forall>u \<in> set w. in_class rs u}}"
    by (simp only: Plus_def lang.simps(5) lang.simps(6) star_of_class)
  also have "\<dots> = {w. w \<noteq> [] \<and> (\<forall>u \<in> set w. in_class rs u)}"
  proof (rule set_eqI, rule iffI)
    fix w assume "w \<in> {a @ b | a b. a \<in> lang (Class rs) \<and> b \<in> {w. \<forall>u \<in> set w. in_class rs u}}"
    then show "w \<in> {w. w \<noteq> [] \<and> (\<forall>u \<in> set w. in_class rs u)}" by auto
  next
    fix w assume "w \<in> {w. w \<noteq> [] \<and> (\<forall>u \<in> set w. in_class rs u)}"
    then obtain u v where "w = [u] @ v" "in_class rs u" "\<forall>x \<in> set v. in_class rs x"
      by (cases w) auto
    then show "w \<in> {a @ b | a b. a \<in> lang (Class rs) \<and> b \<in> {w. \<forall>u \<in> set w. in_class rs u}}"
      by (simp only: lang.simps mem_Collect_eq) blast
  qed
  finally show ?thesis .
qed

lemma b64url_class:
  "in_class [(0x41, 0x5A), (0x61, 0x7A), (0x30, 0x39), (0x5F, 0x5F), (0x2D, 0x2D)] u = is_b64url_char u"
  by (auto simp: in_class_def is_b64url_char_def)

lemma lang_REGEX:
  "lang REGEX = {PREFIX @ w | w. w \<noteq> [] \<and> (\<forall>u \<in> set w. is_b64url_char u)}"
proof -
  have "lang REGEX = {a @ b | a b. a \<in> {PREFIX} \<and> b \<in> {w. w \<noteq> [] \<and> (\<forall>u \<in> set w. is_b64url_char u)}}"
    by (simp only: REGEX_def lang.simps(5) lang_Lit lang_Plus_Class b64url_class PREFIX_def [symmetric])
  then show ?thesis by simp
qed

lemma REGEX_test: "regex_test REGEX s \<longleftrightarrow> prefix_and_charset s"
proof -
  have "s \<in> lang REGEX \<longleftrightarrow> prefix_and_charset s"
  proof
    assume "s \<in> lang REGEX"
    then obtain w where "s = PREFIX @ w" "w \<noteq> []" "\<forall>u \<in> set w. is_b64url_char u"
      by (auto simp only: lang_REGEX mem_Collect_eq)
    then show "prefix_and_charset s"
      by (simp add: prefix_and_charset_def startsWith_def list_all_iff)
  next
    assume a: "prefix_and_charset s"
    then have "take (length PREFIX) s = PREFIX" by (simp add: prefix_and_charset_def startsWith_def)
    then have "s = PREFIX @ drop (length PREFIX) s" using append_take_drop_id [of "length PREFIX" s] by simp
    moreover from a have "drop (length PREFIX) s \<noteq> []"
      "\<forall>u \<in> set (drop (length PREFIX) s). is_b64url_char u"
      by (simp_all add: prefix_and_charset_def list_all_iff)
    ultimately show "s \<in> lang REGEX" by (simp only: lang_REGEX mem_Collect_eq) blast
  qed
  then show ?thesis by (simp add: regex_test_lang)
qed

subsection \<open>Trimming\<close>

lemma dropWhile_all: "\<forall>u \<in> set w. P u \<Longrightarrow> dropWhile P (w @ xs) = dropWhile P xs"
  by (induction w) simp_all

lemma dropWhile_all_Nil: "\<forall>u \<in> set w. P u \<Longrightarrow> dropWhile P w = []"
  by (induction w) simp_all

lemma dropWhile_not_all:
  "\<not> (\<forall>u \<in> set s. P u) \<Longrightarrow> dropWhile P (s @ w) = dropWhile P s @ w"
  by (induction s) simp_all

lemma dropWhile_hd: "xs \<noteq> [] \<Longrightarrow> \<not> P (hd xs) \<Longrightarrow> dropWhile P xs = xs"
  by (cases xs) simp_all

lemma trim_surrounded:
  assumes w1: "\<forall>u \<in> set w1. is_js_space u" and w2: "\<forall>u \<in> set w2. is_js_space u"
  shows "trim (w1 @ s @ w2) = trim s"
proof -
  have a: "dropWhile is_js_space (w1 @ s @ w2) = dropWhile is_js_space (s @ w2)"
    using w1 by (rule dropWhile_all)
  show ?thesis
  proof (cases "\<forall>u \<in> set s. is_js_space u")
    case True
    then have "\<forall>u \<in> set (s @ w2). is_js_space u" using w2 by auto
    then have "dropWhile is_js_space (s @ w2) = []" by (rule dropWhile_all_Nil)
    moreover have "dropWhile is_js_space s = []" using True by (rule dropWhile_all_Nil)
    ultimately have "trim (w1 @ s @ w2) = []" and "trim s = []"
      by (simp_all only: trim_def a dropWhile.simps rev.simps)
    then show ?thesis by simp
  next
    case False
    then have b: "dropWhile is_js_space (s @ w2) = dropWhile is_js_space s @ w2"
      by (rule dropWhile_not_all)
    have "\<forall>u \<in> set (rev w2). is_js_space u" using w2 by simp
    then have c: "dropWhile is_js_space (rev w2 @ rev (dropWhile is_js_space s))
        = dropWhile is_js_space (rev (dropWhile is_js_space s))"
      by (rule dropWhile_all)
    show ?thesis by (simp only: trim_def a b rev_append c)
  qed
qed

lemma trim_fixed:
  assumes "s = [] \<or> (\<not> is_js_space (hd s) \<and> \<not> is_js_space (last s))"
  shows "trim s = s"
proof (cases "s = []")
  case True
  then show ?thesis by (simp add: trim_def)
next
  case False
  with assms have h: "\<not> is_js_space (hd s)" and l: "\<not> is_js_space (last s)" by auto
  have a: "dropWhile is_js_space s = s" using False h by (rule dropWhile_hd)
  have "rev s \<noteq> []" using False by simp
  moreover have "\<not> is_js_space (hd (rev s))" using False l by (simp add: hd_rev)
  ultimately have b: "dropWhile is_js_space (rev s) = rev s" by (rule dropWhile_hd)
  show ?thesis by (simp only: trim_def a b rev_rev_ident)
qed

lemma trim_trim: "trim (trim s) = trim s"
proof -
  define a where "a = dropWhile is_js_space s"
  define b where "b = dropWhile is_js_space (rev a)"
  have t: "trim s = rev b" by (simp only: trim_def a_def b_def)
  show ?thesis
  proof (cases "b = []")
    case True
    then have e: "trim s = []" by (simp only: t rev.simps)
    have n: "trim [] = []" by (simp add: trim_def)
    show ?thesis by (simp only: e n)
  next
    case False
    have bl: "\<not> is_js_space (hd b)" using False unfolding b_def by (rule hd_dropWhile)
    define c where "c = takeWhile is_js_space (rev a)"
    have "c @ b = rev a" by (simp add: c_def b_def)
    then have "rev (c @ b) = a" by simp
    then have "rev b @ rev c = a" by simp
    then have "hd a = hd (rev b)" using False by (auto simp: hd_append)
    moreover have "a \<noteq> []" using False b_def by auto
    then have "\<not> is_js_space (hd a)" unfolding a_def by (rule hd_dropWhile)
    ultimately have bh: "\<not> is_js_space (hd (rev b))" by simp
    have "last (rev b) = hd b" using False by (simp add: last_rev)
    then have "trim (rev b) = rev b" using bh bl False by (intro trim_fixed) simp
    then show ?thesis by (simp only: t)
  qed
qed

subsection \<open>The example platform\<close>

lemma demo_sign:
  "signEd25519 demo_platform C (KeyObject k) = Inr (replicate 64 (checksum C + of_nat k))"
  by (simp add: signEd25519_def demo_platform_def)

lemma demo_seal_Tx:
  "seal demo_platform [0x54, 0x3A, 0x78] (KeyObject 7) \<lparr>opt_compress = None, opt_epochMs = Some (Num 5)\<rparr>
   = Inr (layout 0x02 5 [3, 20, 37, 54] [0x54, 0x3A, 0x78] @ [0x01]
          @ replicate 64 (checksum (layout 0x02 5 [3, 20, 37, 54] [0x54, 0x3A, 0x78]) + 7))"
proof -
  have a: "is_uint48 (Num 5)" by (simp add: is_uint48_def)
  show ?thesis
    using seal_success [OF a, of "[0x54, 0x3A, 0x78]" "\<lparr>opt_compress = None, opt_epochMs = Some (Num 5)\<rparr>"
        demo_platform "[3, 20, 37, 54]" "[0x54, 0x3A, 0x78]" "KeyObject 7"
        "replicate 64 (checksum (layout 0x02 5 [3, 20, 37, 54] [0x54, 0x3A, 0x78]) + 7)"]
    by (simp add: resolve_epochMs_def demo_random utf8_Tx demo_sign)
qed

lemma demo_layout: "layout 0x02 5 [3, 20, 37, 54] [0x54, 0x3A, 0x78] = demo_content"
  by (simp add: layout_def MAGIC_def VER_def writeU48_def uvarintEncode_loop.simps demo_content_def)

lemma demo_checksum: "checksum demo_content = 179"
  by (simp add: checksum_def demo_content_def)

lemma demo_seal:
  "seal demo_platform [0x54, 0x3A, 0x78] (KeyObject 7) \<lparr>opt_compress = None, opt_epochMs = Some (Num 5)\<rparr>
   = Inr demo_token"
  by (simp add: demo_seal_Tx demo_layout demo_checksum demo_token_def)

lemma demo_signs_64: "signs_64_bytes demo_platform"
  by (auto simp: signs_64_bytes_def demo_platform_def split: key.splits)

lemma demo_verify:
  "crypto_verify demo_platform d (KeyObject k) sg = Some (sg = replicate 64 (checksum d + of_nat k))"
  by (simp add: demo_platform_def)

lemma demo_verify_string: "crypto_verify demo_platform d (KeyString h) sg = None"
  by (simp add: demo_platform_def)

lemma demo_token_parts:
  "signed_region demo_token = demo_content" "signature_of demo_token = replicate 64 186"
  "length demo_token = 85"
  by (simp_all add: signed_region_def signature_of_def demo_token_def demo_content_def)

lemma demo_varint: "uvarintDecode demo_token 16 = Inr (3, 1)"
  by (simp add: uvarintDecode_def uvarintDecode_loop.simps demo_token_def demo_content_def js_shl_def)

lemma demo_seal_bom:
  "seal demo_platform [0xFEFF, 0x61] (KeyObject 7) \<lparr>opt_compress = None, opt_epochMs = Some (Num 0)\<rparr>
   = Inr (layout 0x02 0 [3, 20, 37, 54] [0xEF, 0xBB, 0xBF, 0x61] @ [0x01]
          @ replicate 64 (checksum (layout 0x02 0 [3, 20, 37, 54] [0xEF, 0xBB, 0xBF, 0x61]) + 7))"
proof -
  have a: "is_uint48 (Num 0)" by (simp add: is_uint48_def)
  show ?thesis
    using seal_success [OF a, of "[0xFEFF, 0x61]" "\<lparr>opt_compress = None, opt_epochMs = Some (Num 0)\<rparr>"
        demo_platform "[3, 20, 37, 54]" "[0xEF, 0xBB, 0xBF, 0x61]" "KeyObject 7"
        "replicate 64 (checksum (layout 0x02 0 [3, 20, 37, 54] [0xEF, 0xBB, 0xBF, 0x61]) + 7)"]
    by (simp add: resolve_epochMs_def demo_random utf8_bom_a demo_sign)
qed

lemma PREFIX_units: "PREFIX = [0x74, 0x70, 0x73, 0x75, 0x69, 0x64, 0x37, 0x72, 0x62, 0x5F]"
  by (simp add: PREFIX_def js_def)

lemma js_AAAA: "js ''tpsuid7rb_AAAA'' = PREFIX @ [0x41, 0x41, 0x41, 0x41]"
  by (simp add: PREFIX_def js_def)

lemma trim_AAAA: "trim (PREFIX @ [0x41, 0x41, 0x41, 0x41]) = PREFIX @ [0x41, 0x41, 0x41, 0x41]"
  by (rule trim_fixed) (simp add: PREFIX_units is_js_space_def)

lemma shape_AAAA: "prefix_and_charset (PREFIX @ [0x41, 0x41, 0x41, 0x41])"
  by (simp add: prefix_and_charset_def startsWith_def is_b64url_char_def)

lemma base64_AAAA: "base64UrlDecode [0x41, 0x41, 0x41, 0x41] = [0, 0, 0]"
  by (simp add: base64UrlDecode_def replace_all_def Buffer_from_base64_def unbase64_def)

lemma decode_AAAA: "decodeBinaryB64 P (PREFIX @ [0x41, 0x41, 0x41, 0x41]) = Inl TooShort"
  by (simp add: decodeBinaryB64_def trim_AAAA startsWith_def base64_AAAA decodeBinary_def)

subsection \<open>Base64url encoding and decoding\<close>

lemma alphabet_table:
  "list_all (\<lambda>n. unbase64 (b64_char n) = Some n \<and> b64_char n \<noteq> 0x3D
              \<and> \<not> is_js_space (b64_char n) \<and> b64_char n \<noteq> 0x2D \<and> b64_char n \<noteq> 0x5F
              \<and> b64_char n AND 0xFF = b64_char n)
            [0..<64]"
  by code_simp

lemma alphabet:
  assumes "n < 64"
  shows "unbase64 (b64_char n) = Some n" and "b64_char n \<noteq> 0x3D" and "\<not> is_js_space (b64_char n)"
    and "b64_char n \<noteq> 0x2D" and "b64_char n \<noteq> 0x5F" and "b64_char n AND 0xFF = b64_char n"
  using alphabet_table assms by (simp_all add: list_all_iff)

lemma unat_byte: "unat (a :: byte) < 256"
  using unsigned_less [of a, where 'a = nat] by simp

lemma sextet_bounds:
  "unat (a :: byte) div 4 < 64" "unat (a :: byte) mod 4 * 16 + unat (b :: byte) div 16 < 64"
  "unat b mod 16 * 4 + unat (c :: byte) div 64 < 64" "unat c mod 64 < 64"
  "unat b mod 16 * 4 < 64" "unat a mod 4 * 16 < 64"
proof -
  have a: "unat a div 4 < 64" "unat a mod 4 < 4" using unat_byte [of a] by simp_all
  have b: "unat b div 16 < 16" "unat b mod 16 < 16" using unat_byte [of b] by simp_all
  have c: "unat c div 64 < 4" "unat c mod 64 < 64" using unat_byte [of c] by simp_all
  show "unat a div 4 < 64" by (rule a)
  show "unat a mod 4 * 16 + unat b div 16 < 64" using a(2) b(1) by linarith
  show "unat b mod 16 * 4 + unat c div 64 < 64" using b(2) c(1) by linarith
  show "unat c mod 64 < 64" by (rule c)
  show "unat b mod 16 * 4 < 64" using b(2) by linarith
  show "unat a mod 4 * 16 < 64" using a(2) by linarith
qed

lemma sextets_bound: "\<forall>n \<in> set (sextets bs). n < 64"
  by (induction bs rule: sextets.induct) (simp_all add: sextet_bounds)

lemma regroup:
  fixes x y :: nat
  shows "y < 16 \<Longrightarrow> (x * 16 + y) div 16 = x" and "y < 16 \<Longrightarrow> (x * 16 + y) mod 16 = y"
    and "y < 4 \<Longrightarrow> (x * 4 + y) div 4 = x" and "y < 4 \<Longrightarrow> (x * 4 + y) mod 4 = y"
  by simp_all

lemma byte_arith:
  "unat (a :: byte) div 4 * 4 + (unat a mod 4 * 16 + unat (b :: byte) div 16) div 16 = unat a"
  "(unat a mod 4 * 16 + unat b div 16) mod 16 * 16 + (unat b mod 16 * 4 + unat (c :: byte) div 64) div 4
     = unat b"
  "(unat b mod 16 * 4 + unat c div 64) mod 4 * 64 + unat c mod 64 = unat c"
  "(unat a mod 4 * 16 + unat b div 16) mod 16 * 16 + (unat b mod 16 * 4) div 4 = unat b"
  "unat a div 4 * 4 + (unat a mod 4 * 16) div 16 = unat a"
proof -
  have b: "unat b div 16 < 16" using unat_byte [of b] by simp
  have c: "unat c div 64 < 4" using unat_byte [of c] by simp
  have r1: "(unat a mod 4 * 16 + unat b div 16) div 16 = unat a mod 4" using b by (rule regroup(1))
  have r2: "(unat a mod 4 * 16 + unat b div 16) mod 16 = unat b div 16" using b by (rule regroup(2))
  have r3: "(unat b mod 16 * 4 + unat c div 64) div 4 = unat b mod 16" using c by (rule regroup(3))
  have r4: "(unat b mod 16 * 4 + unat c div 64) mod 4 = unat c div 64" using c by (rule regroup(4))
  show "unat a div 4 * 4 + (unat a mod 4 * 16 + unat b div 16) div 16 = unat a"
    by (simp only: r1 div_mult_mod_eq)
  show "(unat a mod 4 * 16 + unat b div 16) mod 16 * 16 + (unat b mod 16 * 4 + unat c div 64) div 4
     = unat b"
    by (simp only: r2 r3 div_mult_mod_eq)
  show "(unat b mod 16 * 4 + unat c div 64) mod 4 * 64 + unat c mod 64 = unat c"
    by (simp only: r4 div_mult_mod_eq)
  show "(unat a mod 4 * 16 + unat b div 16) mod 16 * 16 + (unat b mod 16 * 4) div 4 = unat b"
    by (simp only: r2 nonzero_mult_div_cancel_right div_mult_mod_eq)
  show "unat a div 4 * 4 + (unat a mod 4 * 16) div 16 = unat a"
    by simp
qed

lemma of_nat_unat_byte: "of_nat (unat (a :: byte)) = a"
  by simp

lemma b64_bytes_sextets: "b64_bytes (sextets bs) = bs"
proof (induction bs rule: sextets.induct)
  case (1 a b c rest)
  show ?case
    by (simp only: sextets.simps append.simps b64_bytes.simps byte_arith "1.IH" of_nat_unat_byte)
next
  case (2 a b)
  show ?case
    by (simp only: sextets.simps append.simps b64_bytes.simps byte_arith of_nat_unat_byte)
next
  case (3 a)
  show ?case
    by (simp only: sextets.simps append.simps b64_bytes.simps byte_arith of_nat_unat_byte)
next
  case 4
  show ?case by simp
qed

lemma b64_sextets_encoded:
  "\<forall>n \<in> set ss. n < 64 \<Longrightarrow> b64_sextets (map b64_char ss @ replicate p 0x3D) = ss"
proof (induction ss)
  case Nil
  show ?case by (cases p) simp_all
next
  case (Cons n ss)
  then have n: "n < 64" by simp
  show ?case using Cons by (simp add: alphabet(1,2,6) [OF n])
qed

lemma replace_there_and_back:
  assumes "\<forall>n \<in> set ss. n < 64"
  shows "replace_all 0x5F 0x2F (replace_all 0x2D 0x2B
           (replace_all 0x2F 0x5F (replace_all 0x2B 0x2D (map b64_char ss)) @ replicate p 0x3D))
         = map b64_char ss @ replicate p 0x3D"
  using assms alphabet(4,5) by (auto simp: replace_all_def)

lemma strip_padding:
  assumes "\<forall>n \<in> set ss. n < 64"
  shows "strip_trailing 0x3D (replace_all 0x2F 0x5F (replace_all 0x2B 0x2D
           (map b64_char ss @ replicate k 0x3D)))
         = replace_all 0x2F 0x5F (replace_all 0x2B 0x2D (map b64_char ss))"
proof -
  define X where "X = replace_all 0x2F 0x5F (replace_all 0x2B 0x2D (map b64_char ss))"
  have a: "replace_all 0x2F 0x5F (replace_all 0x2B 0x2D (map b64_char ss @ replicate k 0x3D))
         = X @ replicate k 0x3D"
    by (simp add: X_def replace_all_def)
  have noeq: "\<forall>u \<in> set X. u \<noteq> 0x3D"
    using assms alphabet(2) by (auto simp: X_def replace_all_def)
  have "dropWhile (\<lambda>u. u = 0x3D) (rev (X @ replicate k 0x3D)) = rev X"
  proof -
    have "dropWhile (\<lambda>u. u = 0x3D) (replicate k 0x3D @ rev X) = dropWhile (\<lambda>u. u = 0x3D) (rev X)"
      by (induction k) simp_all
    also have "\<dots> = rev X" using noeq by (cases "rev X") auto
    finally show ?thesis by simp
  qed
  then show ?thesis unfolding a X_def [symmetric] by (simp add: strip_trailing_def)
qed

lemma base64Url_roundtrip: "base64UrlDecode (base64UrlEncode bs) = bs"
proof -
  define X where "X = replace_all 0x2F 0x5F (replace_all 0x2B 0x2D (map b64_char (sextets bs)))"
  have enc: "base64UrlEncode bs = X"
    unfolding base64UrlEncode_def toString_base64_def X_def
    by (rule strip_padding) (rule sextets_bound)
  have "base64UrlDecode X = b64_bytes (b64_sextets (map b64_char (sextets bs)
            @ replicate ((4 - length X mod 4) mod 4) 0x3D))"
    unfolding base64UrlDecode_def Let_def Buffer_from_base64_def X_def
    by (subst replace_there_and_back) (simp_all add: sextets_bound)
  also have "\<dots> = b64_bytes (sextets bs)"
    by (subst b64_sextets_encoded) (simp_all add: sextets_bound)
  also have "\<dots> = bs" by (rule b64_bytes_sextets)
  finally show ?thesis by (simp add: enc)
qed

lemma is_js_space_dash: "\<not> is_js_space 0x2D" "\<not> is_js_space 0x5F"
  by (simp_all add: is_js_space_def)

lemma base64UrlEncode_chars:
  "\<forall>u \<in> set (base64UrlEncode bs). \<not> is_js_space u"
proof -
  have "base64UrlEncode bs = replace_all 0x2F 0x5F (replace_all 0x2B 0x2D (map b64_char (sextets bs)))"
    unfolding base64UrlEncode_def toString_base64_def
    by (rule strip_padding) (rule sextets_bound)
  then show ?thesis
    using sextets_bound [of bs] alphabet(3) is_js_space_dash by (auto simp: replace_all_def)
qed

lemma base64UrlEncode_nonempty: "bs \<noteq> [] \<Longrightarrow> base64UrlEncode bs \<noteq> []"
proof -
  assume "bs \<noteq> []"
  then have "sextets bs \<noteq> []" by (induction bs rule: sextets.induct) simp_all
  moreover have "base64UrlEncode bs = replace_all 0x2F 0x5F (replace_all 0x2B 0x2D (map b64_char (sextets bs)))"
    unfolding base64UrlEncode_def toString_base64_def
    by (rule strip_padding) (rule sextets_bound)
  ultimately show ?thesis by (simp add: replace_all_def)
qed

subsection \<open>The calendar\<close>

lemma div_unique_int:
  fixes x k a b :: int
  assumes "x = k * a + b" "0 \<le> b" "b < k"
  shows "x div k = a"
  using assms by (metis div_pos_pos_trivial div_mult_self4 add.commute add.right_neutral
      less_le_trans linorder_not_less mult.commute not_less_iff_gr_or_eq)

lemma year_of_era:
  fixes doe :: int
  assumes lo: "0 \<le> doe" and hi: "doe \<le> 146096"
  defines "yoe \<equiv> (doe - doe div 1460 + doe div 36524 - doe div 146096) div 365"
  defines "doy \<equiv> doe - (365 * yoe + yoe div 4 - yoe div 100)"
  shows "0 \<le> yoe \<and> yoe \<le> 399 \<and> 0 \<le> doy \<and> doy \<le> 365"
proof -
  define c where "c = min 3 (doe div 36524)"
  define r1 where "r1 = doe - 36524 * c"
  define q where "q = min 24 (r1 div 1461)"
  define r2 where "r2 = r1 - 1461 * q"
  define y where "y = min 3 (r2 div 365)"
  define k where "k = r2 - 365 * y"
  have c: "0 \<le> c" "c \<le> 3" using lo by (simp_all add: c_def)
  have r1: "0 \<le> r1" "r1 \<le> 36524"
    using lo hi unfolding r1_def c_def by (auto simp: min_def) 
  have q: "0 \<le> q" "q \<le> 24" using r1(1) by (simp_all add: q_def)
  have r2: "0 \<le> r2" "r2 \<le> 1460"
    using r1(1,2) unfolding r2_def q_def by (auto simp: min_def)
  have y: "0 \<le> y" "y \<le> 3" using r2(1) by (simp_all add: y_def)
  have k: "0 \<le> k" "k \<le> 365" "k = 365 \<longrightarrow> y = 3"
    using r2(1,2) unfolding k_def y_def by (auto simp: min_def)
  have doe: "doe = 36524 * c + 1461 * q + 365 * y + k"
    by (simp add: k_def r2_def r1_def)
  define Y where "Y = 100 * c + 4 * q + y"
  define w where "w = 24 * c + q + 365 * y + k"
  define dl where "dl = w div 1460"
  have w: "0 \<le> w" "w < 2920" using c q y k by (simp_all add: w_def)
  have dl: "0 \<le> dl" "dl \<le> 1" using w by (simp_all add: dl_def)
  have dl0: "dl = 0" if "k = 0"
  proof -
    have "w < 1460" using that c q y by (simp add: w_def)
    then show ?thesis using w(1) by (simp add: dl_def)
  qed
  have dl1: "dl = 1" if "k = 365"
  proof -
    have "y = 3" using that k(3) by simp
    then have "1460 \<le> w" using that c q by (simp add: w_def)
    then show ?thesis using w(2) unfolding dl_def by (intro div_unique_int [of _ _ _ "w - 1460"]) simp_all
  qed
  have d1460: "doe div 1460 = 25 * c + q + dl"
  proof -
    have "doe = w + (25 * c + q) * 1460" by (simp add: doe w_def)
    then have "doe div 1460 = w div 1460 + (25 * c + q)" by simp
    then show ?thesis by (simp add: dl_def)
  qed
  have dcent: "doe div 36524 - doe div 146096 = c"
  proof (cases "doe = 146096")
    case True
    then show ?thesis by (simp add: c_def)
  next
    case False
    then have "doe < 146096" using hi by simp
    then have "doe div 146096 = 0" "doe div 36524 \<le> 3" using lo by simp_all
    then show ?thesis by (simp add: c_def)
  qed
  have N: "doe - doe div 1460 + doe div 36524 - doe div 146096 = 365 * Y + (k - dl)"
    using d1460 dcent by (simp add: doe Y_def)
  have kd: "0 \<le> k - dl" "k - dl < 365"
  proof -
    show "0 \<le> k - dl" using dl0 dl k(1) by (cases "k = 0") auto
    show "k - dl < 365" using dl1 dl k(2) by (cases "k = 365") auto
  qed
  have yoe: "yoe = Y" unfolding yoe_def N using kd by (intro div_unique_int [of _ _ _ "k - dl"]) simp_all
  have Y4: "Y div 4 = 25 * c + q"
    using y by (intro div_unique_int [of _ _ _ y]) (simp_all add: Y_def)
  have Y100: "Y div 100 = c"
    using y q by (intro div_unique_int [of _ _ _ "4 * q + y"]) (simp_all add: Y_def)
  have doy: "doy = k" unfolding doy_def yoe Y4 Y100 by (simp add: doe Y_def)
  have "0 \<le> Y" "Y \<le> 399" using c q y by (simp_all add: Y_def)
  then show ?thesis using yoe doy k by simp
qed


lemma civil_from_days_cases:
  obtains era yoe doy mp where
    "civil_from_days z
     = (yoe + era * 400 + (if mp < 10 then 0 else 1),
        if mp < 10 then mp + 3 else mp - 9,
        doy - (153 * mp + 2) div 5 + 1)"
    and "era = (z + 719468) div 146097"
    and "z + 719468 = era * 146097 + (365 * yoe + yoe div 4 - yoe div 100) + doy"
    and "0 \<le> yoe" and "yoe \<le> 399" and "0 \<le> doy" and "doy \<le> 365"
    and "0 \<le> mp" and "mp \<le> 11" and "(153 * mp + 2) div 5 \<le> doy"
    and "doy - (153 * mp + 2) div 5 \<le> 30"
proof -
  define era where "era = (z + 719468) div 146097"
  define doe where "doe = (z + 719468) - era * 146097"
  define yoe where "yoe = (doe - doe div 1460 + doe div 36524 - doe div 146096) div 365"
  define doy where "doy = doe - (365 * yoe + yoe div 4 - yoe div 100)"
  define mp where "mp = (5 * doy + 2) div 153"
  have doe: "0 \<le> doe" "doe \<le> 146096"
  proof -
    have "doe = (z + 719468) mod 146097"
      unfolding doe_def era_def by (simp add: minus_div_mult_eq_mod)
    then show "0 \<le> doe" "doe \<le> 146096" by simp_all
  qed
  have y: "0 \<le> yoe \<and> yoe \<le> 399 \<and> 0 \<le> doy \<and> doy \<le> 365"
    unfolding yoe_def doy_def using doe by (rule year_of_era)
  have mp: "0 \<le> mp \<and> mp \<le> 11" using y unfolding mp_def by arith
  have le: "(153 * mp + 2) div 5 \<le> doy" unfolding mp_def by arith
  have ge: "doy - (153 * mp + 2) div 5 \<le> 30" unfolding mp_def by arith
  have m: "((if mp < 10 then mp + 3 else mp - 9) \<le> 2) = (\<not> mp < 10)" using mp by auto
  have c: "civil_from_days z
         = (yoe + era * 400 + (if mp < 10 then 0 else 1),
            if mp < 10 then mp + 3 else mp - 9,
            doy - (153 * mp + 2) div 5 + 1)"
    unfolding civil_from_days_def Let_def
    unfolding era_def [symmetric] doe_def [symmetric]
    unfolding yoe_def [symmetric]
    unfolding doy_def [symmetric]
    unfolding mp_def [symmetric]
    by (simp only: m) simp
  have z: "z + 719468 = era * 146097 + (365 * yoe + yoe div 4 - yoe div 100) + doy"
    by (simp add: doy_def doe_def)
  show thesis
    using that [OF c era_def z] y mp le ge by blast
qed

lemma days_from_civil_civil_from_days:
  assumes "civil_from_days z = (Y, M, D)"
  shows "days_from_civil Y M D = z \<and> 1 \<le> M \<and> M \<le> 12 \<and> 1 \<le> D \<and> D \<le> 31"
proof -
  obtain era yoe doy mp where
    p: "civil_from_days z
     = (yoe + era * 400 + (if mp < 10 then 0 else 1),
        if mp < 10 then mp + 3 else mp - 9,
        doy - (153 * mp + 2) div 5 + 1)"
    and z: "z + 719468 = era * 146097 + (365 * yoe + yoe div 4 - yoe div 100) + doy"
    and b: "0 \<le> yoe" "yoe \<le> 399" "0 \<le> mp" "mp \<le> 11"
    and le: "(153 * mp + 2) div 5 \<le> doy"
    and ge: "doy - (153 * mp + 2) div 5 \<le> 30"
    by (rule civil_from_days_cases [of z]) blast
  have Y: "Y = yoe + era * 400 + (if mp < 10 then 0 else 1)"
    and M: "M = (if mp < 10 then mp + 3 else mp - 9)"
    and D: "D = doy - (153 * mp + 2) div 5 + 1"
    using assms unfolding p by simp_all
  have y': "(if M \<le> 2 then Y - 1 else Y) = era * 400 + yoe" using b by (auto simp: Y M)
  have e': "(era * 400 + yoe) div 400 = era"
    using b by (intro div_unique_int [of _ _ _ yoe]) simp_all
  have mp': "(if M > 2 then M - 3 else M + 9) = mp" using b by (auto simp: M)
  have "days_from_civil Y M D = z"
    unfolding days_from_civil_def Let_def y' e' mp'
    using z by (simp add: D)
  moreover have "1 \<le> M" "M \<le> 12" using b by (auto simp: M)
  moreover have "1 \<le> D" "D \<le> 31" using le ge by (simp_all add: D)
  ultimately show ?thesis by simp
qed

lemma civil_year_bounds:
  assumes "0 \<le> z" "z < 3257813" "civil_from_days z = (Y, M, D)"
  shows "1600 \<le> Y" "Y \<le> 11200"
proof -
  obtain era yoe doy mp where
    p: "civil_from_days z
     = (yoe + era * 400 + (if mp < 10 then 0 else 1),
        if mp < 10 then mp + 3 else mp - 9,
        doy - (153 * mp + 2) div 5 + 1)"
    and era: "era = (z + 719468) div 146097"
    and b: "0 \<le> yoe" "yoe \<le> 399"
    by (rule civil_from_days_cases [of z]) blast
  have Y: "Y = yoe + era * 400 + (if mp < 10 then 0 else 1)"
    using assms(3) unfolding p by simp
  have "4 \<le> era" "era \<le> 27" using assms(1,2) by (simp_all add: era)
  then show "1600 \<le> Y" "Y \<le> 11200" using b by (auto simp: Y)
qed


lemma days_from_civil_day: "days_from_civil y m 1 + d - 1 = days_from_civil y m d"
  by (simp add: days_from_civil_def Let_def)

lemma clock_fields:
  fixes t :: int
  shows "(t div msPerDay) * msPerDay + (t div 3600000) mod 24 * 3600000
         + (t div 60000) mod 60 * 60000 + (t div 1000) mod 60 * 1000
         = 1000 * (t div 1000)"
proof -
  define q where "q = t div 1000"
  define a where "a = q div 60"
  define b where "b = a div 60"
  have m: "t div 60000 = a" unfolding a_def q_def by (simp add: zdiv_zmult2_eq)
  have h: "t div 3600000 = b" unfolding b_def a_def q_def by (simp add: zdiv_zmult2_eq)
  have d: "t div 86400000 = b div 24"
    unfolding b_def a_def q_def by (simp add: zdiv_zmult2_eq)
  have q: "q = 60 * a + q mod 60" unfolding a_def by simp
  have a: "a = 60 * b + a mod 60" unfolding b_def by simp
  have b: "b = 24 * (b div 24) + b mod 24" by simp
  have "b div 24 * 86400 + b mod 24 * 3600 + a mod 60 * 60 + q mod 60 = q"
    using q a b by linarith
  then show ?thesis
    unfolding msPerDay_def m h d q_def [symmetric] by linarith
qed

lemma Date_UTC_getters:
  assumes lo: "0 \<le> t" and hi: "t < 2 ^ 48"
  shows "Date_UTC (getUTCFullYear t) (getUTCMonth t + 1 - 1) (getUTCDate t) (getUTCHours t)
           (getUTCMinutes t) (getUTCSeconds t)
         = Some (1000 * (t div 1000))"
    and "1600 \<le> getUTCFullYear t" and "getUTCFullYear t \<le> 11200"
    and "1 \<le> getUTCMonth t + 1" and "getUTCMonth t + 1 \<le> 12"
    and "1 \<le> getUTCDate t" and "getUTCDate t \<le> 31"
proof -
  define z where "z = t div msPerDay"
  obtain Y M D where c: "civil_from_days z = (Y, M, D)" by (cases "civil_from_days z") auto
  have z: "0 \<le> z" "z < 3257813" using lo hi by (simp_all add: z_def msPerDay_def)
  note r = days_from_civil_civil_from_days [OF c]
  note yb = civil_year_bounds [OF z c]
  have g: "getUTCFullYear t = Y" "getUTCMonth t = M - 1" "getUTCDate t = D"
    by (simp_all add: getUTCFullYear_def getUTCMonth_def getUTCDate_def z_def [symmetric] c)
  show "1600 \<le> getUTCFullYear t" "getUTCFullYear t \<le> 11200" using yb by (simp_all add: g)
  show "1 \<le> getUTCMonth t + 1" "getUTCMonth t + 1 \<le> 12" "1 \<le> getUTCDate t"
    "getUTCDate t \<le> 31"
    using r by (simp_all add: g)
  have yr: "(if 0 \<le> Y \<and> Y \<le> 99 then 1900 + Y else Y) = Y" using yb by simp
  have mo: "(M - 1) div 12 = 0" "(M - 1) mod 12 = M - 1" using r by simp_all
  have dy: "days_from_civil Y M 1 + D - 1 = z" using r by (simp add: days_from_civil_day)
  have tv: "z * msPerDay + (t div 3600000) mod 24 * 3600000
         + (t div 60000) mod 60 * 60000 + (t div 1000) mod 60 * 1000 = 1000 * (t div 1000)"
    unfolding z_def by (rule clock_fields)
  have rng: "\<not> \<bar>1000 * (t div 1000)\<bar> > 8640000000000000"
  proof -
    have "0 \<le> t div 1000" "1000 * (t div 1000) \<le> t" using lo by simp_all
    then show ?thesis using hi by simp
  qed
  show "Date_UTC (getUTCFullYear t) (getUTCMonth t + 1 - 1) (getUTCDate t) (getUTCHours t)
           (getUTCMinutes t) (getUTCSeconds t)
         = Some (1000 * (t div 1000))"
    unfolding g getUTCHours_def getUTCMinutes_def getUTCSeconds_def Date_UTC_def Let_def
    by (simp only: add_diff_cancel_right' yr mo add_0_right diff_add_cancel dy tv rng if_False)
qed

subsection \<open>Printed numbers and the fields of the time text\<close>

lemma digit_table:
  "list_all (\<lambda>k. is_digit (of_nat (0x30 + k)) \<and> uint (of_nat (0x30 + k) :: 16 word) = 0x30 + int k
               \<and> (of_nat (0x30 + k) :: 16 word) \<noteq> 0x2D \<and> (of_nat (0x30 + k) :: 16 word) \<noteq> 0x2E
               \<and> \<not> is_js_space (of_nat (0x30 + k)))
            [0..<10]"
  by code_simp

lemma digit_char:
  assumes "k < 10"
  shows "is_digit (of_nat (0x30 + k))" and "uint (of_nat (0x30 + k) :: 16 word) = 0x30 + int k"
    and "(of_nat (0x30 + k) :: 16 word) \<noteq> 0x2D" and "(of_nat (0x30 + k) :: 16 word) \<noteq> 0x2E"
    and "\<not> is_js_space (of_nat (0x30 + k))"
  using digit_table assms by (simp_all add: list_all_iff)

lemma digit_sum:
  assumes "k < 10"
  shows "is_digit (0x30 + of_nat k)" and "uint (0x30 + of_nat k :: 16 word) = 0x30 + int k"
    and "(0x30 + of_nat k :: 16 word) \<noteq> 0x2D" and "(0x30 + of_nat k :: 16 word) \<noteq> 0x2E"
    and "\<not> is_js_space (0x30 + of_nat k)"
  using digit_char [OF assms] by simp_all

lemma digits_small: "n < 10 \<Longrightarrow> digits n = [0x30 + of_nat n]"
  by (subst digits.simps) simp

lemma digits_step: "\<not> n < 10 \<Longrightarrow> digits n = digits (n div 10) @ [0x30 + of_nat (n mod 10)]"
  by (subst digits.simps) simp

lemma digits_all: "\<forall>u \<in> set (digits n). is_digit u"
proof (induction n rule: digits.induct)
  case (1 n)
  show ?case
  proof (cases "n < 10")
    case True
    then show ?thesis by (simp add: digits_small digit_sum(1))
  next
    case False
    have "n mod 10 < 10" by simp
    then have "is_digit (0x30 + of_nat (n mod 10))" by (rule digit_sum(1))
    then show ?thesis using False 1 by (simp add: digits_step)
  qed
qed

lemma digits_nonempty: "digits n \<noteq> []"
  by (cases "n < 10") (simp_all add: digits_small digits_step)

lemma digits_value: "foldl (\<lambda>a d. 10 * a + (uint d - 0x30)) 0 (digits n) = int n"
proof (induction n rule: digits.induct)
  case (1 n)
  show ?case
  proof (cases "n < 10")
    case True
    then show ?thesis by (simp add: digits_small digit_sum(2))
  next
    case False
    have "n mod 10 < 10" by simp
    then have u: "uint (0x30 + of_nat (n mod 10) :: 16 word) = 0x30 + int (n mod 10)"
      by (rule digit_sum(2))
    have "foldl (\<lambda>a d. 10 * a + (uint d - 0x30)) 0 (digits (n div 10)) = int (n div 10)"
      using False 1 by simp
    then show ?thesis using False by (simp add: digits_step u zdiv_int zmod_int)
  qed
qed

lemma digits_length: "n < 100 \<Longrightarrow> length (digits n) \<le> 2"
proof (cases "n < 10")
  case True
  then show ?thesis by (simp add: digits_small)
next
  case False
  assume "n < 100"
  then have "n div 10 < 10" by simp
  then show ?thesis using False by (simp add: digits_step digits_small)
qed

lemma to_double_small: "\<bar>n\<bar> < 2 ^ 53 \<Longrightarrow> to_double n = Some n"
  by (simp add: to_double_def)

lemma parseInt_digits:
  assumes "\<forall>u \<in> set ds. is_digit u" "ds \<noteq> []"
    and "foldl (\<lambda>a d. 10 * a + (uint d - 0x30)) 0 ds = v" and "\<bar>v\<bar> < 2 ^ 53"
  shows "parseInt ds = Some v"
proof -
  have "is_digit (hd ds)" using assms(1,2) by simp
  then have "hd ds \<noteq> 0x2D" by (auto simp: is_digit_def)
  then show ?thesis using assms(3,4) by (simp add: parseInt_def to_double_small)
qed

lemma parseInt_Number_toString:
  assumes "0 \<le> i" "i < 2 ^ 53"
  shows "parseInt (Number_toString i) = Some i"
proof -
  have "parseInt (digits (nat i)) = Some (int (nat i))"
    using digits_all digits_nonempty digits_value
    by (rule parseInt_digits) (use assms in simp)
  then show ?thesis using assms by (simp add: Number_toString_def)
qed

lemma pad_digits:
  assumes "0 \<le> i"
  shows "\<forall>u \<in> set (pad i). is_digit u" and "pad i \<noteq> []"
    and "foldl (\<lambda>a d. 10 * a + (uint d - 0x30)) 0 (pad i) = i"
    and "i < 100 \<Longrightarrow> length (pad i) = 2"
proof -
  have t: "Number_toString i = digits (nat i)" using assms by (simp add: Number_toString_def)
  have z: "is_digit 0x30" by (simp add: is_digit_def)
  show "\<forall>u \<in> set (pad i). is_digit u"
    using digits_all [of "nat i"] z by (auto simp: pad_def t Let_def)
  show "pad i \<noteq> []" using digits_nonempty [of "nat i"] by (simp add: pad_def t Let_def)
  have "foldl (\<lambda>a d. 10 * a + (uint d - 0x30)) 0 (replicate j (0x30 :: 16 word)) = 0" for j
    by (induction j) simp_all
  then show "foldl (\<lambda>a d. 10 * a + (uint d - 0x30)) 0 (pad i) = i"
    using digits_value [of "nat i"] assms by (simp add: pad_def t Let_def)
  show "length (pad i) = 2" if "i < 100"
  proof -
    have "nat i < 100" using that assms by simp
    then have "length (digits (nat i)) \<le> 2" by (rule digits_length)
    moreover have "0 < length (digits (nat i))" using digits_nonempty [of "nat i"] by simp
    ultimately show ?thesis by (auto simp: pad_def t Let_def)
  qed
qed

lemma parseInt_pad:
  assumes "0 \<le> i" "i < 2 ^ 53"
  shows "parseInt (pad i) = Some i"
  using pad_digits(1,2,3) [OF assms(1)] by (rule parseInt_digits) (use assms in simp)

lemma match_field_other:
  "u \<noteq> 0x2E \<Longrightarrow> match_field l sg b (u # us) = match_field l sg b us"
  by (cases us; cases "tl us") (auto simp: match_here_def split: list.splits)

lemma match_field_skip:
  "f \<noteq> l \<Longrightarrow> f \<noteq> 0x2E \<Longrightarrow> match_field l sg b (0x2E # f # us) = match_field l sg b us"
proof -
  assume f: "f \<noteq> l" "f \<noteq> 0x2E"
  have "match_here l sg b (0x2E # f # us) = None" using f(1) by (simp add: match_here_def)
  then have "match_field l sg b (0x2E # f # us) = match_field l sg b (f # us)" by simp
  also have "\<dots> = match_field l sg b us" using f(2) by (rule match_field_other)
  finally show ?thesis .
qed

lemma is_digit_not_dot: "is_digit u \<Longrightarrow> u \<noteq> 0x2E"
  by (auto simp: is_digit_def)

lemma match_field_digits:
  "\<forall>u \<in> set ds. is_digit u \<Longrightarrow> match_field l sg b (ds @ us) = match_field l sg b us"
proof (induction ds)
  case Nil
  show ?case by simp
next
  case (Cons d ds)
  then have "d \<noteq> 0x2E" by (simp add: is_digit_not_dot)
  then have "match_field l sg b (d # ds @ us) = match_field l sg b (ds @ us)"
    by (rule match_field_other)
  then show ?case using Cons by simp
qed

lemma match_field_hit:
  assumes ds: "\<forall>u \<in> set ds. is_digit u" and ne: "ds \<noteq> []"
    and stop: "us = [] \<or> \<not> is_digit (hd us)"
  shows "match_field l sg b (0x2E # l # ds @ us)
       = Some (case b of None \<Rightarrow> ds | Some k \<Rightarrow> take k ds)"
proof -
  have h: "is_digit (hd ds)" using ds ne by simp
  then have nm: "hd (ds @ us) \<noteq> 0x2D" using ne by (auto simp: is_digit_def)
  have tw: "takeWhile is_digit (ds @ us) = ds"
  proof (cases us)
    case Nil
    then show ?thesis using ds by (simp add: takeWhile_eq_all_conv)
  next
    case (Cons v vs)
    then have "\<not> is_digit v" using stop by simp
    then show ?thesis using ds Cons by (simp add: takeWhile_append2)
  qed
  have "match_here l sg b (0x2E # l # ds @ us)
       = Some (case b of None \<Rightarrow> ds | Some k \<Rightarrow> take k ds)"
    using nm ne by (cases b) (simp_all add: match_here_def tw Let_def)
  then show ?thesis by simp
qed


lemma time_fields:
  fixes m c y M d h n s :: jsstring
  assumes dg: "\<forall>u \<in> set m. is_digit u" "\<forall>u \<in> set c. is_digit u" "\<forall>u \<in> set y. is_digit u"
      "\<forall>u \<in> set M. is_digit u" "\<forall>u \<in> set d. is_digit u" "\<forall>u \<in> set h. is_digit u"
      "\<forall>u \<in> set n. is_digit u" "\<forall>u \<in> set s. is_digit u"
    and ne: "m \<noteq> []" "c \<noteq> []" "y \<noteq> []" "M \<noteq> []" "d \<noteq> []" "h \<noteq> []" "n \<noteq> []" "s \<noteq> []"
  defines "time \<equiv> js ''T:greg.m'' @ m @ js ''.c'' @ c @ js ''.y'' @ y @ js ''.M'' @ M
                    @ js ''.d'' @ d @ js ''.h'' @ h @ js ''.n'' @ n @ js ''.s'' @ s"
  shows "match_field 0x6D sg None time = Some m"
    and "match_field 0x63 sg None time = Some c"
    and "match_field 0x79 sg (Some 4) time = Some (take 4 y)"
    and "match_field 0x4D sg (Some 2) time = Some (take 2 M)"
    and "match_field 0x64 sg (Some 2) time = Some (take 2 d)"
    and "match_field 0x68 sg (Some 2) time = Some (take 2 h)"
    and "match_field 0x6E sg (Some 2) time = Some (take 2 n)"
    and "match_field 0x73 sg (Some 2) time = Some (take 2 s)"
proof -
  have nd: "\<not> is_digit 0x2E" by (simp add: is_digit_def)
  define fs where "fs = 0x2E # 0x73 # s @ []"
  define fn where "fn = 0x2E # 0x6E # n @ fs"
  define fh where "fh = 0x2E # 0x68 # h @ fn"
  define fd where "fd = 0x2E # 0x64 # d @ fh"
  define fM where "fM = 0x2E # 0x4D # M @ fd"
  define fy where "fy = 0x2E # 0x79 # y @ fM"
  define fc where "fc = 0x2E # 0x63 # c @ fy"
  define fm where "fm = 0x2E # 0x6D # m @ fc"
  have time: "time = 0x54 # 0x3A # 0x67 # 0x72 # 0x65 # 0x67 # fm"
    by (simp add: time_def js_def fm_def fc_def fy_def fM_def fd_def fh_def fn_def fs_def)
  have pre: "match_field l sg b time = match_field l sg b fm" for l b
    unfolding time by (simp add: match_field_other del: match_field.simps)
  have stop: "fs = [] \<or> \<not> is_digit (hd fs)" "fn = [] \<or> \<not> is_digit (hd fn)"
    "fh = [] \<or> \<not> is_digit (hd fh)" "fd = [] \<or> \<not> is_digit (hd fd)"
    "fM = [] \<or> \<not> is_digit (hd fM)" "fy = [] \<or> \<not> is_digit (hd fy)"
    "fc = [] \<or> \<not> is_digit (hd fc)" "([] :: jsstring) = [] \<or> \<not> is_digit (hd [])"
    by (simp_all add: nd fs_def fn_def fh_def fd_def fM_def fy_def fc_def)
  have skip: "match_field l sg b (0x2E # f # ds @ us) = match_field l sg b us"
    if "f \<noteq> l" "f \<noteq> 0x2E" "\<forall>u \<in> set ds. is_digit u" for l f b ds us
    using that by (simp add: match_field_skip match_field_digits del: match_field.simps)
  show "match_field 0x6D sg None time = Some m"
    unfolding pre fm_def by (simp add: match_field_hit [OF dg(1) ne(1) stop(7)] del: match_field.simps)
  show "match_field 0x63 sg None time = Some c"
    unfolding pre fm_def fc_def
    by (simp add: skip dg match_field_hit [OF dg(2) ne(2) stop(6)] del: match_field.simps)
  show "match_field 0x79 sg (Some 4) time = Some (take 4 y)"
    unfolding pre fm_def fc_def fy_def
    by (simp add: skip dg match_field_hit [OF dg(3) ne(3) stop(5)] del: match_field.simps)
  show "match_field 0x4D sg (Some 2) time = Some (take 2 M)"
    unfolding pre fm_def fc_def fy_def fM_def
    by (simp add: skip dg match_field_hit [OF dg(4) ne(4) stop(4)] del: match_field.simps)
  show "match_field 0x64 sg (Some 2) time = Some (take 2 d)"
    unfolding pre fm_def fc_def fy_def fM_def fd_def
    by (simp add: skip dg match_field_hit [OF dg(5) ne(5) stop(3)] del: match_field.simps)
  show "match_field 0x68 sg (Some 2) time = Some (take 2 h)"
    unfolding pre fm_def fc_def fy_def fM_def fd_def fh_def
    by (simp add: skip dg match_field_hit [OF dg(6) ne(6) stop(2)] del: match_field.simps)
  show "match_field 0x6E sg (Some 2) time = Some (take 2 n)"
    unfolding pre fm_def fc_def fy_def fM_def fd_def fh_def fn_def
    by (simp add: skip dg match_field_hit [OF dg(7) ne(7) stop(1)] del: match_field.simps)
  show "match_field 0x73 sg (Some 2) time = Some (take 2 s)"
    unfolding pre fm_def fc_def fy_def fM_def fd_def fh_def fn_def fs_def
    using match_field_hit [OF dg(8) ne(8) stop(8), of "0x73" sg "Some 2"]
    by (simp add: skip dg del: match_field.simps)
qed

lemma is_digit_not_space: "is_digit u \<Longrightarrow> \<not> is_js_space u"
  by (auto simp: is_digit_def is_js_space_def word_le_nat_alt)

lemma Number_toString_digits:
  assumes "0 \<le> i"
  shows "\<forall>u \<in> set (Number_toString i). is_digit u" and "Number_toString i \<noteq> []"
    and "i < 100 \<Longrightarrow> length (Number_toString i) \<le> 2"
proof -
  have t: "Number_toString i = digits (nat i)" using assms by (simp add: Number_toString_def)
  show "\<forall>u \<in> set (Number_toString i). is_digit u" unfolding t by (rule digits_all)
  show "Number_toString i \<noteq> []" unfolding t by (rule digits_nonempty)
  show "length (Number_toString i) \<le> 2" if "i < 100"
    unfolding t using that assms by (intro digits_length) simp
qed

lemma trim_time_text:
  assumes "0 \<le> s"
  shows "trim (time_text m c y M d h n s) = time_text m c y M d h n s"
proof (rule trim_fixed, rule disjI2, rule conjI)
  show "\<not> is_js_space (hd (time_text m c y M d h n s))"
    by (simp add: time_text_def js_def is_js_space_def)
  have "last (time_text m c y M d h n s) = last (pad s)"
    using pad_digits(2) [OF assms] by (simp add: time_text_def)
  moreover have "is_digit (last (pad s))"
    using pad_digits(1,2) [OF assms] by simp
  ultimately show "\<not> is_js_space (last (time_text m c y M d h n s))"
    by (simp add: is_digit_not_space)
qed

lemma num_small:
  "\<bar>a + b\<bar> < 2 ^ 53 \<Longrightarrow> num_add (Some a) (Some b) = Some (a + b)"
  "\<bar>a - b\<bar> < 2 ^ 53 \<Longrightarrow> num_sub (Some a) (Some b) = Some (a - b)"
  "\<bar>a * b\<bar> < 2 ^ 53 \<Longrightarrow> num_mul (Some a) (Some b) = Some (a * b)"
  by (simp_all add: num_add_def num_sub_def num_mul_def to_double_small)

lemma startsWith_time_text: "startsWith (time_text m c y M d h n s) (js ''T:greg.'')"
  by (simp add: startsWith_def time_text_def js_def)

lemma epochMs_of_time_text:
  assumes at: "0x40 \<notin> set pre"
    and m: "1 \<le> m" "m < 2 ^ 32" and c: "1 \<le> c" "c < 2 ^ 32" and y: "0 \<le> y" "y < 100"
    and M: "1 \<le> M" "M < 100" and d: "0 \<le> d" "d < 100" and h: "0 \<le> h" "h < 100"
    and n: "0 \<le> n" "n < 100" and s: "0 \<le> s" "s < 100"
  shows "epochMsFromTPSString (pre @ 0x40 # time_text m c y M d h n s)
       = (case Date_UTC ((m - 1) * 1000 + (c - 1) * 100 + y) (M - 1) d h n s of
            None \<Rightarrow> Inl TPSFailedToComputeEpoch
          | Some epoch \<Rightarrow> Inr epoch)"
proof -
  define time where "time = time_text m c y M d h n s"
  have m0: "0 \<le> m" and c0: "0 \<le> c" and M0: "0 \<le> M" using m c M by simp_all
  have inset: "0x40 \<in> set (pre @ 0x40 # time)" by simp
  have dw: "dropWhile (\<lambda>u. u \<noteq> 0x40) (pre @ 0x40 # time) = 0x40 # time"
    using at by (auto simp: dropWhile_append3)
  have tr: "trim (drop 1 (0x40 # time)) = time"
    unfolding time_def using s(1) by (simp add: trim_time_text)
  have sw: "startsWith time (js ''T:greg.'')" unfolding time_def by (rule startsWith_time_text)
  note f = time_fields [OF Number_toString_digits(1) [OF m0] Number_toString_digits(1) [OF c0]
      Number_toString_digits(1) [OF y(1)] pad_digits(1) [OF M0] pad_digits(1) [OF d(1)]
      pad_digits(1) [OF h(1)] pad_digits(1) [OF n(1)] pad_digits(1) [OF s(1)]
      Number_toString_digits(2) [OF m0] Number_toString_digits(2) [OF c0]
      Number_toString_digits(2) [OF y(1)] pad_digits(2) [OF M0] pad_digits(2) [OF d(1)]
      pad_digits(2) [OF h(1)] pad_digits(2) [OF n(1)] pad_digits(2) [OF s(1)],
      folded time_text_def, folded time_def]
  have ty: "take 4 (Number_toString y) = Number_toString y"
    using Number_toString_digits(3) [OF y] by simp
  have tp: "take 2 (pad M) = pad M" "take 2 (pad d) = pad d" "take 2 (pad h) = pad h"
    "take 2 (pad n) = pad n" "take 2 (pad s) = pad s"
    using pad_digits(4) [OF M0 M(2)] pad_digits(4) [OF d] pad_digits(4) [OF h]
      pad_digits(4) [OF n] pad_digits(4) [OF s] by simp_all
  have p: "parseInt (Number_toString m) = Some m" "parseInt (Number_toString c) = Some c"
    "parseInt (Number_toString y) = Some y" "parseInt (pad M) = Some M" "parseInt (pad d) = Some d"
    "parseInt (pad h) = Some h" "parseInt (pad n) = Some n" "parseInt (pad s) = Some s"
    using m c y M d h n s
    by (simp_all add: parseInt_Number_toString parseInt_pad)
  have b: "\<bar>m - 1\<bar> < 2 ^ 53" "\<bar>(m - 1) * 1000\<bar> < 2 ^ 53" "\<bar>c - 1\<bar> < 2 ^ 53"
    "\<bar>(c - 1) * 100\<bar> < 2 ^ 53" "\<bar>(m - 1) * 1000 + (c - 1) * 100\<bar> < 2 ^ 53"
    "\<bar>(m - 1) * 1000 + (c - 1) * 100 + y\<bar> < 2 ^ 53" "\<bar>M - 1\<bar> < 2 ^ 53"
    using m c y M by simp_all
  have s1: "num_sub (Some m) (Some 1) = Some (m - 1)" using b(1) by (rule num_small)
  have s2: "num_mul (Some (m - 1)) (Some 1000) = Some ((m - 1) * 1000)" using b(2) by (rule num_small)
  have s3: "num_sub (Some c) (Some 1) = Some (c - 1)" using b(3) by (rule num_small)
  have s4: "num_mul (Some (c - 1)) (Some 100) = Some ((c - 1) * 100)" using b(4) by (rule num_small)
  have s5: "num_add (Some ((m - 1) * 1000)) (Some ((c - 1) * 100))
            = Some ((m - 1) * 1000 + (c - 1) * 100)" using b(5) by (rule num_small)
  have s6: "num_add (Some ((m - 1) * 1000 + (c - 1) * 100)) (Some y)
            = Some ((m - 1) * 1000 + (c - 1) * 100 + y)" using b(6) by (rule num_small)
  have yr: "num_add (num_add (num_mul (num_sub (Some m) (Some 1)) (Some 1000))
                             (num_mul (num_sub (Some c) (Some 1)) (Some 100))) (Some y)
            = Some ((m - 1) * 1000 + (c - 1) * 100 + y)"
    by (simp only: s1 s2 s3 s4 s5 s6)
  have mo: "num_sub (Some M) (Some 1) = Some (M - 1)" using b(7) by (rule num_small)
  show ?thesis
    unfolding time_def [symmetric] epochMsFromTPSString_def
    by (simp only: inset dw tr sw f ty tp p yr mo Let_def if_True if_False not_True_eq_False
          sum.case prod.case option.case Date_UTC_of_def)
qed

subsection \<open>UTF-8 of ASCII text\<close>

lemma ascii_unat: "(u :: 16 word) < 0x80 \<Longrightarrow> unat u < 0x80"
  by (simp add: word_less_nat_alt)

lemma ascii_scalar_values: "\<forall>u \<in> set s. u < 0x80 \<Longrightarrow> scalar_values s = map unat s"
proof (induction s rule: scalar_values.induct)
  case 1
  show ?case by simp
next
  case (2 u)
  then have "unat u < 0x80" by (simp add: ascii_unat)
  then show ?case by (simp add: is_high_surrogate_def is_low_surrogate_def word_le_nat_alt)
next
  case (3 u v rest)
  then have "unat u < 0x80" by (simp add: ascii_unat)
  then have n: "\<not> is_high_surrogate u" "\<not> is_low_surrogate u"
    by (simp_all add: is_high_surrogate_def is_low_surrogate_def word_le_nat_alt)
  have "scalar_values (v # rest) = map unat (v # rest)" using 3 n by simp
  then show ?case using n by simp
qed

lemma ascii_encode:
  assumes "\<forall>u \<in> set s. u < 0x80"
  shows "TextEncoder_encode s = map of_nat (map unat s)"
proof -
  have "concat (map utf8_encode_scalar vs) = map of_nat vs" if "\<forall>v \<in> set vs. v < 0x80" for vs
    using that by (induction vs) (simp_all add: utf8_encode_scalar_def)
  moreover have "\<forall>v \<in> set (map unat s). v < 0x80" using assms by (simp add: ascii_unat)
  ultimately show ?thesis by (simp only: TextEncoder_encode_def ascii_scalar_values [OF assms])
qed

lemma ascii_decode:
  "\<forall>v \<in> set vs. v < 0x80 \<Longrightarrow> utf8_decoder 0 0 0 0x80 0xBF (map of_nat vs) = vs"
proof (induction vs)
  case Nil
  show ?case by simp
next
  case (Cons v vs)
  then have "v < 0x80" by simp
  then have "unat (of_nat v :: byte) = v" by (simp add: unat_of_nat)
  then show ?case using Cons by simp
qed

lemma ascii_roundtrip:
  assumes "\<forall>u \<in> set s. u < 0x80"
  shows "TextDecoder_decode (TextEncoder_encode s) = s"
proof -
  have v: "\<forall>v \<in> set (map unat s). v < 0x80" using assms by (simp add: ascii_unat)
  have d: "utf8_decoder 0 0 0 0x80 0xBF (TextEncoder_encode s) = map unat s"
    by (simp only: ascii_encode [OF assms] ascii_decode [OF v])
  have b: "strip_bom (map unat s) = map unat s"
  proof (cases s)
    case Nil
    then show ?thesis by simp
  next
    case (Cons u us)
    then have "unat u < 0x80" using assms by (simp add: ascii_unat)
    then show ?thesis using Cons by simp
  qed
  have "concat (map utf16_encode_scalar (map unat us)) = us" if "\<forall>u \<in> set us. u < 0x80" for us
    using that
  proof (induction us)
    case Nil
    show ?case by simp
  next
    case (Cons u us)
    then have "unat u < 0x80" by (simp add: ascii_unat)
    then have "utf16_encode_scalar (unat u) = [u]" by (simp add: utf16_encode_scalar_def)
    then show ?case using Cons by simp
  qed
  then show ?thesis using assms by (simp only: TextDecoder_decode_def d b)
qed

subsection \<open>The text that generate embeds\<close>

lemma number_char_not_at: "is_number_char u \<Longrightarrow> u \<noteq> 0x40"
  by (auto simp: is_number_char_def js_def)

lemma number_char_ascii: "is_number_char u \<Longrightarrow> u < 0x80"
  by (auto simp: is_number_char_def js_def)

lemma is_digit_ascii: "is_digit u \<Longrightarrow> u < 0x80"
  by (auto simp: is_digit_def word_le_nat_alt word_less_nat_alt)

lemma time_text_ascii:
  assumes "0 \<le> m" "0 \<le> c" "0 \<le> y" "0 \<le> M" "0 \<le> d" "0 \<le> h" "0 \<le> n" "0 \<le> s"
  shows "\<forall>u \<in> set (time_text m c y M d h n s). u < 0x80"
proof -
  have "\<forall>u \<in> set (Number_toString m). u < 0x80" "\<forall>u \<in> set (Number_toString c). u < 0x80"
    "\<forall>u \<in> set (Number_toString y). u < 0x80" "\<forall>u \<in> set (pad M). u < 0x80"
    "\<forall>u \<in> set (pad d). u < 0x80" "\<forall>u \<in> set (pad h). u < 0x80"
    "\<forall>u \<in> set (pad n). u < 0x80" "\<forall>u \<in> set (pad s). u < 0x80"
    using assms Number_toString_digits(1) pad_digits(1) is_digit_ascii by blast+
  then show ?thesis by (auto simp: time_text_def js_def)
qed

lemma generateTPSString_parts:
  assumes "coordinates_are_numbers opts"
  obtains pre where
    "generateTPSString t opts
     = pre @ 0x40 # time_text (getUTCFullYear t div 1000 + 1)
                      (js_rem (getUTCFullYear t) 1000 div 100 + 1) (js_rem (getUTCFullYear t) 100)
                      (getUTCMonth t + 1) (getUTCDate t) (getUTCHours t) (getUTCMinutes t)
                      (getUTCSeconds t)"
    and "0x40 \<notin> set pre" and "\<forall>u \<in> set pre. u < 0x80"
proof -
  define sp where "sp =
            (case (latitude opts, longitude opts) of
               (Some lat, Some lon) \<Rightarrow>
                 lat @ js '','' @ lon
                 @ (case altitude opts of Some alt \<Rightarrow> js '','' @ alt @ js ''m'' | None \<Rightarrow> [])
             | _ \<Rightarrow> js ''unknown'')"
  have g: "generateTPSString t opts
     = (js ''tps://'' @ sp) @ 0x40 # time_text (getUTCFullYear t div 1000 + 1)
                      (js_rem (getUTCFullYear t) 1000 div 100 + 1) (js_rem (getUTCFullYear t) 100)
                      (getUTCMonth t + 1) (getUTCDate t) (getUTCHours t) (getUTCMinutes t)
                      (getUTCSeconds t)"
    unfolding generateTPSString_def Let_def sp_def [symmetric] time_text_def
    by (simp add: js_def)
  have "0x40 \<notin> set sp"
    using assms
    by (auto simp: sp_def coordinates_are_numbers_def js_def dest: number_char_not_at
          split: option.splits)
  then have a: "0x40 \<notin> set (js ''tps://'' @ sp)" by (simp add: js_def)
  have "\<forall>u \<in> set sp. u < 0x80"
    using assms
    by (auto simp: sp_def coordinates_are_numbers_def js_def dest: number_char_ascii
          split: option.splits)
  then have "\<forall>u \<in> set (js ''tps://'' @ sp). u < 0x80" by (auto simp: js_def)
  with g a show thesis by (rule that)
qed

lemma epochMs_of_generated_text:
  assumes lo: "0 \<le> t" and hi: "t < 2 ^ 48" and co: "coordinates_are_numbers opts"
  shows "epochMsFromTPSString (generateTPSString t opts) = Inr (1000 * (t div 1000))"
    and "TextDecoder_decode (TextEncoder_encode (generateTPSString t opts)) = generateTPSString t opts"
proof -
  define Y where "Y = getUTCFullYear t"
  note g = Date_UTC_getters [OF lo hi, folded Y_def]
  have Y: "1600 \<le> Y" "Y \<le> 11200" using g(2,3) .
  have r: "js_rem Y 1000 = Y mod 1000" "js_rem Y 100 = Y mod 100"
    using Y by (simp_all add: js_rem_def)
  obtain pre where tx: "generateTPSString t opts
     = pre @ 0x40 # time_text (Y div 1000 + 1) (Y mod 1000 div 100 + 1) (Y mod 100)
                      (getUTCMonth t + 1) (getUTCDate t) (getUTCHours t) (getUTCMinutes t)
                      (getUTCSeconds t)"
    and at: "0x40 \<notin> set pre" and pa: "\<forall>u \<in> set pre. u < 0x80"
    using generateTPSString_parts [OF co, of t] unfolding Y_def [symmetric] r by blast
  have m: "1 \<le> Y div 1000 + 1" "Y div 1000 + 1 < 2 ^ 32" using Y by simp_all
  have c: "1 \<le> Y mod 1000 div 100 + 1" "Y mod 1000 div 100 + 1 < 2 ^ 32" by simp_all
  have y: "0 \<le> Y mod 100" "Y mod 100 < 100" by simp_all
  have M: "1 \<le> getUTCMonth t + 1" "getUTCMonth t + 1 < 100" using g(4,5) by simp_all
  have d: "0 \<le> getUTCDate t" "getUTCDate t < 100" using g(6,7) by simp_all
  have h: "0 \<le> getUTCHours t" "getUTCHours t < 100" by (simp_all add: getUTCHours_def)
  have n: "0 \<le> getUTCMinutes t" "getUTCMinutes t < 100" by (simp_all add: getUTCMinutes_def)
  have s: "0 \<le> getUTCSeconds t" "getUTCSeconds t < 100" by (simp_all add: getUTCSeconds_def)
  have yr: "(Y div 1000 + 1 - 1) * 1000 + (Y mod 1000 div 100 + 1 - 1) * 100 + Y mod 100 = Y"
  proof -
    define a where "a = Y div 1000"
    define r where "r = Y mod 1000"
    define b where "b = r div 100"
    define q where "q = Y mod 100"
    have qq: "q = r mod 100" unfolding r_def q_def by (simp add: mod_mod_cancel)
    have 1: "r = b * 100 + q" unfolding b_def qq by simp
    have 2: "Y = a * 1000 + r" unfolding a_def r_def by simp
    have "(a + 1 - 1) * 1000 + (b + 1 - 1) * 100 + q = Y" using 1 2 by simp
    then show ?thesis unfolding a_def b_def r_def q_def .
  qed
  show "epochMsFromTPSString (generateTPSString t opts) = Inr (1000 * (t div 1000))"
    unfolding tx epochMs_of_time_text [OF at m c y M d h n s] yr
    by (simp only: g(1) option.case)
  have "\<forall>u \<in> set (time_text (Y div 1000 + 1) (Y mod 1000 div 100 + 1) (Y mod 100)
                      (getUTCMonth t + 1) (getUTCDate t) (getUTCHours t) (getUTCMinutes t)
                      (getUTCSeconds t)). u < 0x80"
    using m(1) c(1) y(1) M(1) d(1) h(1) n(1) s(1) by (intro time_text_ascii) simp_all
  then have "\<forall>u \<in> set (generateTPSString t opts). u < 0x80"
    unfolding tx using pa by auto
  then show "TextDecoder_decode (TextEncoder_encode (generateTPSString t opts))
             = generateTPSString t opts"
    by (rule ascii_roundtrip)
qed

subsection \<open>Generated identifiers\<close>

lemma whole_seconds_div:
  fixes t k :: int
  assumes "0 < k"
  shows "(1000 * (t div 1000)) div (1000 * k) = t div (1000 * k)"
proof -
  have "(1000 * (t div 1000)) div (1000 * k) = (t div 1000) div k" by simp
  also have "\<dots> = t div (1000 * k)" using assms by (simp add: zdiv_zmult2_eq)
  finally show ?thesis .
qed

lemma getters_whole_seconds:
  "getUTCFullYear (1000 * (t div 1000)) = getUTCFullYear t"
  "getUTCMonth (1000 * (t div 1000)) = getUTCMonth t"
  "getUTCDate (1000 * (t div 1000)) = getUTCDate t"
  "getUTCHours (1000 * (t div 1000)) = getUTCHours t"
  "getUTCMinutes (1000 * (t div 1000)) = getUTCMinutes t"
  "getUTCSeconds (1000 * (t div 1000)) = getUTCSeconds t"
proof -
  have d: "(1000 * (t div 1000)) div msPerDay = t div msPerDay"
    using whole_seconds_div [of 86400 t] by (simp add: msPerDay_def)
  have h: "(1000 * (t div 1000)) div 3600000 = t div 3600000"
    using whole_seconds_div [of 3600 t] by simp
  have m: "(1000 * (t div 1000)) div 60000 = t div 60000"
    using whole_seconds_div [of 60 t] by simp
  show "getUTCFullYear (1000 * (t div 1000)) = getUTCFullYear t"
    by (simp only: getUTCFullYear_def d)
  show "getUTCMonth (1000 * (t div 1000)) = getUTCMonth t"
    by (simp only: getUTCMonth_def d)
  show "getUTCDate (1000 * (t div 1000)) = getUTCDate t"
    by (simp only: getUTCDate_def d)
  show "getUTCHours (1000 * (t div 1000)) = getUTCHours t"
    by (simp only: getUTCHours_def h)
  show "getUTCMinutes (1000 * (t div 1000)) = getUTCMinutes t"
    by (simp only: getUTCMinutes_def m)
  show "getUTCSeconds (1000 * (t div 1000)) = getUTCSeconds t"
    by (simp add: getUTCSeconds_def)
qed

lemma generateTPSString_whole_seconds:
  "generateTPSString (1000 * (t div 1000)) opts = generateTPSString t opts"
  by (simp only: generateTPSString_def getters_whole_seconds)

lemma PREFIX_no_space: "\<forall>u \<in> set PREFIX. \<not> is_js_space u"
  by (simp add: PREFIX_units is_js_space_def)

lemma trim_identifier: "trim (PREFIX @ base64UrlEncode bs) = PREFIX @ base64UrlEncode bs"
proof (rule trim_fixed)
  define s where "s = PREFIX @ base64UrlEncode bs"
  have ne: "s \<noteq> []" by (simp add: s_def PREFIX_units)
  have all: "\<forall>u \<in> set s. \<not> is_js_space u"
    using PREFIX_no_space base64UrlEncode_chars [of bs] by (auto simp: s_def)
  have "hd s \<in> set s" "last s \<in> set s" using ne by simp_all
  then have "\<not> is_js_space (hd s) \<and> \<not> is_js_space (last s)" using all by blast
  then show "PREFIX @ base64UrlEncode bs = []
     \<or> (\<not> is_js_space (hd (PREFIX @ base64UrlEncode bs))
         \<and> \<not> is_js_space (last (PREFIX @ base64UrlEncode bs)))"
    unfolding s_def by (rule disjI2)
qed

lemma decodeBinaryB64_identifier:
  "decodeBinaryB64 P (PREFIX @ base64UrlEncode bs) = decodeBinary P bs"
  by (simp only: decodeBinaryB64_def trim_identifier Let_def startsWith_def
        append_eq_conv_conj)
     (simp add: base64Url_roundtrip)

lemma is_uint48_of_int:
  assumes "0 \<le> t" "t < 2 ^ 48"
  shows "is_uint48 (Num (of_int t))" and "BigInt (Num (of_int t)) = t"
proof -
  have "(of_int t :: real) \<le> of_int (2 ^ 48 - 1)" using assms(2) by (subst of_int_le_iff) simp
  then have "(of_int t :: real) \<le> 2 ^ 48 - 1" by simp
  moreover have "(0 :: real) \<le> of_int t" using assms(1) by simp
  ultimately show "is_uint48 (Num (of_int t))" by (simp add: is_uint48_def)
  show "BigInt (Num (of_int t)) = t" by simp
qed

lemma generate_decodes:
  assumes lo: "0 \<le> now" and hi: "now < 2 ^ 48"
    and rnd: "randomBytes P 4 = Inr nb"
    and pl: "(if (case gen_compress opts of Some c \<Rightarrow> c | None \<Rightarrow> False)
              then deflateRaw P (TextEncoder_encode (generateTPSString now opts))
              else Inr (TextEncoder_encode (generateTPSString now opts))) = Inr pl"
    and len: "length pl < 2 ^ 32"
    and z: "(case gen_compress opts of Some c \<Rightarrow> c | None \<Rightarrow> False)
            \<longrightarrow> zlib_roundtrip P (TextEncoder_encode (generateTPSString now opts))"
  shows "\<exists>ident. generate P now opts = Inr ident
         \<and> decodeBinaryB64 P ident
             = Inr \<lparr>version = js ''tpsuid7rb'', epochMs = now,
                    compressed = (case gen_compress opts of Some c \<Rightarrow> c | None \<Rightarrow> False),
                    nonce = nonce_value nb,
                    tps = TextDecoder_decode (TextEncoder_encode (generateTPSString now opts))\<rparr>"
proof -
  define s where "s = generateTPSString now opts"
  define eo where "eo = \<lparr>opt_compress = gen_compress opts, opt_epochMs = Some (Num (of_int now))\<rparr>"
  have oc: "opt_compress eo = gen_compress opts" by (simp add: eo_def)
  have ep: "resolve_epochMs s eo = Inr (Num (of_int now))"
    by (simp add: resolve_epochMs_def eo_def)
  have n: "is_uint48 (Num (of_int now))" using lo hi by (rule is_uint48_of_int)
  have big: "BigInt (Num (of_int now)) = now" by simp
  obtain out where enc: "encodeBinary P s eo = Inr out"
    and dec: "decodeBinary P out
             = Inr \<lparr>version = js ''tpsuid7rb'', epochMs = BigInt (Num (of_int now)),
                    compressed = (case opt_compress eo of Some c \<Rightarrow> c | None \<Rightarrow> False),
                    nonce = nonce_value nb, tps = TextDecoder_decode (TextEncoder_encode s)\<rparr>"
    using encode_then_decode [OF n ep rnd _ len] pl z
    unfolding oc s_def [symmetric] by blast
  have g: "generate P now opts = Inr (PREFIX @ base64UrlEncode out)"
    by (simp only: generate_def Let_def s_def [symmetric] eo_def [symmetric]
          encodeBinaryB64_def enc sum.case)
  have d2: "decodeBinaryB64 P (PREFIX @ base64UrlEncode out)
           = Inr \<lparr>version = js ''tpsuid7rb'', epochMs = now,
                  compressed = (case gen_compress opts of Some c \<Rightarrow> c | None \<Rightarrow> False),
                  nonce = nonce_value nb, tps = TextDecoder_decode (TextEncoder_encode s)\<rparr>"
    using dec by (simp only: decodeBinaryB64_identifier oc big)
  show ?thesis
    unfolding s_def [symmetric]
    by (rule exI [of _ "PREFIX @ base64UrlEncode out"]) (simp only: g d2 simp_thms)
qed


lemma demo_generated_text:
  "generateTPSString 1767969025123
     \<lparr>latitude = None, longitude = None, altitude = None, gen_compress = None\<rparr>
   = js ''tps://unknown@T:greg.m3.c1.y26.M01.d09.h14.n30.s25''"
  by code_simp

lemma demo_generated_utf8:
  "length (TextEncoder_encode (js ''tps://unknown@T:greg.m3.c1.y26.M01.d09.h14.n30.s25'')) = 50"
  by code_simp

lemma demo_text_time:
  "epochMsFromTPSString (js ''tps://unknown@T:greg.m3.c1.y26.M01.d09.h14.n30.s25'')
   = Inr 1767969025000"
  by code_simp

section \<open>The claims\<close>

text \<open>
  C4. The decoder guards against overflow with the test \<open>i > 9 \<or> (i = 9 \<and> b > 1)\<close>, the
  bound of a 64-bit value, while it accumulates in 32 bits. The five bytes
  \<open>80 80 80 80 10\<close> are the LEB128 encoding of \<open>2 ^ 32\<close>; the decoder accepts them and
  returns the wrapped value \<open>0\<close> with five bytes read.
\<close>

theorem uvarintDecode_wraps_at_2_32:
  "uvarintDecode [0x80, 0x80, 0x80, 0x80, 0x10] 0 = Inr (0, 5)"
  by (simp add: uvarintDecode_def uvarintDecode_loop.simps js_shl_def)

text \<open>
  C5. Epoch exactness and epoch bound. When \<open>epochMs\<close> is an integer from 0 to
  \<open>2^48 - 1\<close>, \<open>encodeBinary(s, {epochMs})\<close> returns a buffer, on a platform with a
  random source and for a payload shorter than \<open>2^32\<close> bytes (every JavaScript string
  the engines can hold), and \<open>decodeBinary\<close> of that buffer returns the same \<open>epochMs\<close>.
  When \<open>epochMs\<close> is anything else, \<open>2^48\<close> included, \<open>encodeBinary\<close> throws one of its
  two range errors before it produces anything.
\<close>

theorem encodeBinary_epoch_exact_or_rejected:
  "(is_uint48 n \<and> randomBytes P 4 \<noteq> Inl NoCryptoAvailable \<and> length (TextEncoder_encode s) < 2 ^ 32 \<longrightarrow>
      (\<exists>out r. encodeBinary P s \<lparr>opt_compress = None, opt_epochMs = Some n\<rparr> = Inr out
          \<and> decodeBinary P out = Inr r \<and> Num (of_int (epochMs r)) = n))
   \<and> (\<not> is_uint48 n \<longrightarrow>
        encodeBinary P s \<lparr>opt_compress = c, opt_epochMs = Some n\<rparr> = Inl EpochNotNonNegInt
      \<or> encodeBinary P s \<lparr>opt_compress = c, opt_epochMs = Some n\<rparr> = Inl EpochExceeds48)"
proof (intro conjI impI)
  assume a: "is_uint48 n \<and> randomBytes P 4 \<noteq> Inl NoCryptoAvailable \<and> length (TextEncoder_encode s) < 2 ^ 32"
  let ?opts = "\<lparr>opt_compress = None, opt_epochMs = Some n\<rparr>"
  from a obtain nb where rnd: "randomBytes P 4 = Inr nb"
    by (auto simp: randomBytes_def split: if_splits)
  have nb: "length nb = 4" using rnd by (rule randomBytes_length)
  have big: "0 \<le> BigInt n" "BigInt n < 2 ^ 48" "n = Num (of_int (BigInt n))"
    using a is_uint48_BigInt [of n] by auto
  have enc: "encodeBinary P s ?opts
       = Inr (MAGIC @ [VER] @ [0x00] @ writeU48 (BigInt n) @ nb
              @ uvarintEncode_loop (of_nat (length (TextEncoder_encode s))) [] @ TextEncoder_encode s)"
    using encodeBinary_layout [of n s ?opts P nb "TextEncoder_encode s"] a rnd
    by (simp add: resolve_epochMs_def)
  have dec: "decodeBinary P (MAGIC @ [VER] @ [0x00] @ writeU48 (BigInt n) @ nb
              @ uvarintEncode_loop (of_nat (length (TextEncoder_encode s))) [] @ TextEncoder_encode s @ [])
       = Inr \<lparr>version = js ''tpsuid7rb'', epochMs = BigInt n, compressed = False,
              nonce = nonce_value nb, tps = TextDecoder_decode (TextEncoder_encode s)\<rparr>"
    using decodeBinary_layout [OF big(1,2) nb, of "TextEncoder_encode s" P 0 "[]"] a by simp
  show "\<exists>out r. encodeBinary P s ?opts = Inr out \<and> decodeBinary P out = Inr r
          \<and> Num (of_int (epochMs r)) = n"
    using enc dec big(3) by simp
next
  assume "\<not> is_uint48 n"
  then show "encodeBinary P s \<lparr>opt_compress = c, opt_epochMs = Some n\<rparr> = Inl EpochNotNonNegInt
      \<or> encodeBinary P s \<lparr>opt_compress = c, opt_epochMs = Some n\<rparr> = Inl EpochExceeds48"
    by (rule encodeBinary_range_error) simp
qed

theorem encodeBinary_epoch_exact_or_rejected_witness:
  "(\<exists>out r. encodeBinary demo_platform [0x54, 0x3A, 0x78] \<lparr>opt_compress = None, opt_epochMs = Some (Num 1700000000000)\<rparr> = Inr out
          \<and> decodeBinary demo_platform out = Inr r \<and> epochMs r = 1700000000000)
   \<and> (encodeBinary demo_platform [0x54, 0x3A, 0x78] \<lparr>opt_compress = None, opt_epochMs = Some (Num (2 ^ 48))\<rparr> = Inl EpochNotNonNegInt
      \<or> encodeBinary demo_platform [0x54, 0x3A, 0x78] \<lparr>opt_compress = None, opt_epochMs = Some (Num (2 ^ 48))\<rparr> = Inl EpochExceeds48)"
proof -
  have a: "is_uint48 (Num 1700000000000)" by (simp add: is_uint48_def)
  have b: "\<not> is_uint48 (Num (2 ^ 48))" by (simp add: is_uint48_def)
  have c: "randomBytes demo_platform 4 \<noteq> Inl NoCryptoAvailable" by (simp add: demo_random)
  have d: "length (TextEncoder_encode [0x54, 0x3A, 0x78]) < 2 ^ 32" by (simp add: utf8_Tx)
  from encodeBinary_epoch_exact_or_rejected [of "Num 1700000000000" demo_platform "[0x54, 0x3A, 0x78]" None] a c d
  obtain out r where "encodeBinary demo_platform [0x54, 0x3A, 0x78] \<lparr>opt_compress = None, opt_epochMs = Some (Num 1700000000000)\<rparr> = Inr out"
      "decodeBinary demo_platform out = Inr r" "Num (of_int (epochMs r)) = Num 1700000000000"
    by blast
  moreover from this(3) have "epochMs r = 1700000000000" by simp
  moreover note encodeBinary_epoch_exact_or_rejected [of "Num (2 ^ 48)" demo_platform "[0x54, 0x3A, 0x78]" None] b
  ultimately show ?thesis by blast
qed

text \<open>
  C9. \<open>decodeBinary\<close> reads the header, the length and the payload and never looks at
  what follows: whenever it decodes a buffer \<open>b\<close>, it decodes \<open>b\<close> followed by any bytes
  \<open>x\<close> to the same result. In particular the output of \<open>seal\<close>, for a token shorter than
  \<open>2^32\<close> bytes on a platform that inflates what it deflated, goes through
  \<open>decodeBinary\<close> with a result that does not depend on what the platform's signature
  check would answer.
\<close>

theorem decodeBinary_ignores_trailing_bytes:
  "(decodeBinary P b = Inr r \<longrightarrow> decodeBinary P (b @ x) = Inr r)
   \<and> (seal P s sk opts = Inr tok \<and> length tok < 2 ^ 32 \<and> zlib_roundtrip P (TextEncoder_encode s) \<longrightarrow>
        (\<exists>r'. \<forall>vf. decodeBinary (P\<lparr>crypto_verify := vf\<rparr>) tok = Inr r'))"
  using decodeBinary_append [of P b r x] sealed_decodes [of P s sk opts tok]
  by (auto simp: decodeBinary_ignores_crypto)

theorem decodeBinary_ignores_trailing_bytes_witness:
  "decodeBinary demo_platform (layout 0x00 5 [3, 20, 37, 54] [0x54, 0x3A, 0x78] @ [0xAA, 0xBB])
     = Inr \<lparr>version = js ''tpsuid7rb'', epochMs = 5, compressed = False,
            nonce = nonce_value [3, 20, 37, 54], tps = TextDecoder_decode [0x54, 0x3A, 0x78]\<rparr>
   \<and> (\<exists>tok r'. seal demo_platform [0x54, 0x3A, 0x78] (KeyObject 7)
                   \<lparr>opt_compress = None, opt_epochMs = Some (Num 5)\<rparr> = Inr tok
         \<and> (\<forall>vf. decodeBinary (demo_platform\<lparr>crypto_verify := vf\<rparr>) tok = Inr r'))"
proof -
  let ?r = "\<lparr>version = js ''tpsuid7rb'', epochMs = 5, compressed = False,
            nonce = nonce_value [3, 20, 37, 54], tps = TextDecoder_decode [0x54, 0x3A, 0x78]\<rparr>"
  let ?tok = "layout 0x02 5 [3, 20, 37, 54] [0x54, 0x3A, 0x78] @ [0x01]
          @ replicate 64 (checksum (layout 0x02 5 [3, 20, 37, 54] [0x54, 0x3A, 0x78]) + 7)"
  have a: "decodeBinary demo_platform (layout 0x00 5 [3, 20, 37, 54] [0x54, 0x3A, 0x78]) = Inr ?r"
    using decodeBinary_of_layout [of 5 "[3, 20, 37, 54]" "[0x54, 0x3A, 0x78]" demo_platform 0 "[]"]
    by simp
  have b: "length ?tok < 2 ^ 32" by (simp add: layout_def MAGIC_def uvarintEncode_loop.simps)
  have c: "zlib_roundtrip demo_platform (TextEncoder_encode [0x54, 0x3A, 0x78])"
    by (simp add: zlib_roundtrip_def demo_platform_def)
  from decodeBinary_ignores_trailing_bytes [of demo_platform
      "layout 0x00 5 [3, 20, 37, 54] [0x54, 0x3A, 0x78]" ?r "[0xAA, 0xBB]"
      "[0x54, 0x3A, 0x78]" "KeyObject 7" "\<lparr>opt_compress = None, opt_epochMs = Some (Num 5)\<rparr>" ?tok]
    a b c demo_seal_Tx
  show ?thesis by simp
qed

text \<open>
  C3. Tamper detection. \<open>verifyAndDecode\<close> checks the magic and the seal bit and parses
  the length before it verifies the signature, so a changed byte in the signed region is
  not always reported as a failed signature. What holds for a token that \<open>seal\<close>
  returned, a position \<open>i\<close> in the signed region and a new byte \<open>v\<close> there, when the
  signature does not verify the changed content: \<open>verifyAndDecode\<close> never returns a
  result; it throws the signature error when the byte is the version byte, a byte of the
  time or the nonce, a payload byte, or the flags byte with the seal bit still set; it
  throws \<open>bad magic\<close> when a magic byte changed, and \<open>not a sealed UID\<close> when the seal
  bit was cleared.
\<close>

theorem tampering_is_rejected:
  assumes sl: "seal P s sk opts = Inr tok" and s64: "signs_64_bytes P" and len: "length tok < 2 ^ 32"
    and var: "uvarintDecode tok 16 = Inr (n, k)"
    and i: "i < length (signed_region tok)"
    and rej: "crypto_verify P ((signed_region tok)[i := v]) pk (signature_of tok) \<noteq> Some True"
  shows "(\<exists>e. verifyAndDecode P (tok[i := v]) pk = Inl e)
       \<and> (i < 4 \<and> v \<noteq> tok ! i \<longrightarrow> verifyAndDecode P (tok[i := v]) pk = Inl BadMagic)
       \<and> (i = 5 \<and> v AND 0x02 = 0 \<longrightarrow> verifyAndDecode P (tok[i := v]) pk = Inl NotSealed)
       \<and> (i = 4 \<or> (i = 5 \<and> v AND 0x02 \<noteq> 0) \<or> (6 \<le> i \<and> i < 16) \<or> 16 + k \<le> i \<longrightarrow>
            verifyAndDecode P (tok[i := v]) pk = Inl SignatureVerificationFailed)"
proof -
  from sealed_as_mid [OF sl s64 len] obtain mid pl sg where
    tok: "tok = MAGIC @ mid @ uvarintEncode_loop (of_nat (length pl)) [] @ pl @ 0x01 # sg"
    and sr: "signed_region tok = MAGIC @ mid @ uvarintEncode_loop (of_nat (length pl)) [] @ pl"
    and so: "signature_of tok = sg"
    and mid: "length mid = 12" and sealed: "mid ! 1 AND 0x02 \<noteq> 0" and pl: "length pl < 2 ^ 32"
    and sg: "length sg = 64" and req: "has_require P"
    and var': "uvarintDecode tok 16
             = Inr (length pl, length (uvarintEncode_loop (of_nat (length pl) :: 32 word) []))"
    by blast
  define C where "C = MAGIC @ mid @ uvarintEncode_loop (of_nat (length pl)) [] @ pl"
  have k: "k = length (uvarintEncode_loop (of_nat (length pl) :: 32 word) [])"
    using var var' by auto
  have tokC: "tok = C @ [0x01] @ sg" by (simp add: tok C_def)
  have iC: "i < length C" using i by (simp add: sr C_def)
  have rejC: "crypto_verify P (C[i := v]) pk sg \<noteq> Some True" using rej by (simp add: sr so C_def)
  have fails: "\<exists>e. verifyAndDecode P (tok[i := v]) pk = Inl e"
    unfolding tokC by (rule verifyAndDecode_tampered_fails [OF sg iC rejC])
  have rest: "length (mid @ uvarintEncode_loop (of_nat (length pl) :: 32 word) [] @ pl @ 0x01 # sg) \<ge> 14"
    using mid sg by simp
  have magic: "verifyAndDecode P (tok[i := v]) pk = Inl BadMagic" if "i < 4" "v \<noteq> tok ! i"
  proof -
    have "tok ! i = MAGIC ! i" using that(1) by (simp add: tok nth_append length_MAGIC)
    then have vm: "v \<noteq> MAGIC ! i" using that(2) by simp
    show ?thesis
      unfolding tok by (rule tamper_magic [OF that(1) vm rest])
  qed
  have bit: "verifyAndDecode P (tok[i := v]) pk = Inl NotSealed" if "i = 5" "v AND 0x02 = 0"
    unfolding tok that(1) using that(2) rest by (rule tamper_seal_bit)
  have hdr: "verifyAndDecode P (tok[i := v]) pk = Inl SignatureVerificationFailed"
    if "4 \<le> i" "i < 16" "i = 5 \<longrightarrow> v AND 0x02 \<noteq> 0"
    unfolding tok
    using rejC unfolding C_def
    by (intro tamper_header [OF mid sealed pl sg req that])
  have pay: "verifyAndDecode P (tok[i := v]) pk = Inl SignatureVerificationFailed" if "16 + k \<le> i"
    using tamper_payload [OF mid sealed pl sg req, of i v pk] that rejC iC
    unfolding tok k C_def by blast
  show ?thesis
    using fails magic bit hdr pay by auto
qed

text \<open>
  Flipping the first byte of a sealed token (\<open>sealed[0] ^= 0xFF\<close>) is reported as
  \<open>bad magic\<close>, not as a failed signature.
\<close>

theorem tampering_magic_counterexample:
  "seal demo_platform [0x54, 0x3A, 0x78] (KeyObject 7) \<lparr>opt_compress = None, opt_epochMs = Some (Num 5)\<rparr>
     = Inr demo_token
   \<and> 0 < length (signed_region demo_token)
   \<and> verifyAndDecode demo_platform (demo_token[0 := demo_token ! 0 XOR 0xFF]) (KeyObject 7) = Inl BadMagic
   \<and> verifyAndDecode demo_platform (demo_token[0 := demo_token ! 0 XOR 0xFF]) (KeyObject 7)
       \<noteq> Inl SignatureVerificationFailed"
proof -
  have a: "verifyAndDecode demo_platform (demo_token[0 := demo_token ! 0 XOR 0xFF]) (KeyObject 7) = Inl BadMagic"
    by (simp add: verifyAndDecode_def demo_token_def demo_content_def)
  show ?thesis
    by (simp add: demo_seal demo_token_parts a) (simp add: demo_content_def)
qed

theorem tampering_is_rejected_witness:
  "verifyAndDecode demo_platform (demo_token[17 := 0xFF]) (KeyObject 7) = Inl SignatureVerificationFailed
   \<and> verifyAndDecode demo_platform (demo_token[5 := 0x02 XOR 0xFF]) (KeyObject 7) = Inl NotSealed
   \<and> verifyAndDecode demo_platform (demo_token[3 := 0x37 XOR 0xFF]) (KeyObject 7) = Inl BadMagic"
proof -
  have len: "length demo_token < 2 ^ 32" by (simp add: demo_token_parts)
  have r17: "crypto_verify demo_platform ((signed_region demo_token)[17 := 0xFF]) (KeyObject 7)
               (signature_of demo_token) \<noteq> Some True"
    by (simp add: demo_token_parts demo_verify) (simp add: demo_content_def checksum_def)
  have r5: "crypto_verify demo_platform ((signed_region demo_token)[5 := 0x02 XOR 0xFF]) (KeyObject 7)
               (signature_of demo_token) \<noteq> Some True"
    by (simp add: demo_token_parts demo_verify) (simp add: demo_content_def checksum_def)
  have r3: "crypto_verify demo_platform ((signed_region demo_token)[3 := 0x37 XOR 0xFF]) (KeyObject 7)
               (signature_of demo_token) \<noteq> Some True"
    by (simp add: demo_token_parts demo_verify) (simp add: demo_content_def checksum_def)
  have i17: "17 < length (signed_region demo_token)" "5 < length (signed_region demo_token)"
    "3 < length (signed_region demo_token)"
    by (simp_all add: demo_token_parts demo_content_def)
  have t3: "demo_token ! 3 = 0x37" by (simp add: demo_token_def demo_content_def)
  from tampering_is_rejected [OF demo_seal demo_signs_64 len demo_varint i17(1) r17]
  have a: "verifyAndDecode demo_platform (demo_token[17 := 0xFF]) (KeyObject 7) = Inl SignatureVerificationFailed"
    by simp
  from tampering_is_rejected [OF demo_seal demo_signs_64 len demo_varint i17(2) r5]
  have b: "verifyAndDecode demo_platform (demo_token[5 := 0x02 XOR 0xFF]) (KeyObject 7) = Inl NotSealed"
    by simp
  from tampering_is_rejected [OF demo_seal demo_signs_64 len demo_varint i17(3) r3]
  have c: "verifyAndDecode demo_platform (demo_token[3 := 0x37 XOR 0xFF]) (KeyObject 7) = Inl BadMagic"
    by (simp add: t3)
  show ?thesis using a b c by simp
qed

text \<open>
  C6. Wrong key. For a token that \<open>seal\<close> returned and a key under which the platform's
  verification does not answer true, whether it answers false or throws because the key
  is malformed, \<open>verifyAndDecode\<close> throws the one signature error. A changed byte under
  any key whose check does not accept the changed content gives the very same outcome
  when the byte is the version byte, a byte of the time or the nonce, a payload byte, or
  the flags byte with the seal bit still set. A changed magic byte and a cleared seal bit
  are reported as \<open>bad magic\<close> and \<open>not a sealed UID\<close>, which differ from the outcome
  of a wrong key.
\<close>

theorem wrong_key_is_signature_invalid:
  assumes sl: "seal P s sk opts = Inr tok" and s64: "signs_64_bytes P" and len: "length tok < 2 ^ 32"
    and wrong: "crypto_verify P (signed_region tok) pk' (signature_of tok) \<noteq> Some True"
  shows "verifyAndDecode P tok pk' = Inl SignatureVerificationFailed
       \<and> (\<forall>i v pk k.
             (i = 4 \<or> (i = 5 \<and> v AND 0x02 \<noteq> 0) \<or> (6 \<le> i \<and> i < 16)
              \<or> ((\<exists>n. uvarintDecode tok 16 = Inr (n, k)) \<and> 16 + k \<le> i
                  \<and> i < length (signed_region tok)))
             \<and> crypto_verify P ((signed_region tok)[i := v]) pk (signature_of tok) \<noteq> Some True \<longrightarrow>
            verifyAndDecode P (tok[i := v]) pk = verifyAndDecode P tok pk')
       \<and> (\<forall>i v pk. i < 4 \<and> v \<noteq> tok ! i \<longrightarrow>
            verifyAndDecode P (tok[i := v]) pk = Inl BadMagic
            \<and> verifyAndDecode P (tok[i := v]) pk \<noteq> verifyAndDecode P tok pk')
       \<and> (\<forall>v pk. v AND 0x02 = 0 \<longrightarrow>
            verifyAndDecode P (tok[5 := v]) pk = Inl NotSealed
            \<and> verifyAndDecode P (tok[5 := v]) pk \<noteq> verifyAndDecode P tok pk')"
proof -
  note t = sealed_tampered [OF sl s64 len]
  have a: "verifyAndDecode P tok pk' = Inl SignatureVerificationFailed"
    using sl s64 len wrong by (rule sealed_wrong_key)
  have b: "verifyAndDecode P (tok[i := v]) pk = Inl SignatureVerificationFailed"
    if p: "i = 4 \<or> (i = 5 \<and> v AND 0x02 \<noteq> 0) \<or> (6 \<le> i \<and> i < 16)
           \<or> ((\<exists>n. uvarintDecode tok 16 = Inr (n, k)) \<and> 16 + k \<le> i
               \<and> i < length (signed_region tok))"
      and r: "crypto_verify P ((signed_region tok)[i := v]) pk (signature_of tok) \<noteq> Some True"
    for i v pk k
  proof (cases "4 \<le> i \<and> i < 16")
    case True
    then have "4 \<le> i" "i < 16" by simp_all
    moreover have "i = 5 \<longrightarrow> v AND 0x02 \<noteq> 0" using p True by auto
    ultimately show ?thesis using r by (rule t(3))
  next
    case False
    with p obtain n where "uvarintDecode tok 16 = Inr (n, k)" "16 + k \<le> i"
      "i < length (signed_region tok)" by auto
    then show ?thesis using r by (rule t(4))
  qed
  have c: "verifyAndDecode P (tok[i := v]) pk = Inl BadMagic" if "i < 4" "v \<noteq> tok ! i" for i v pk
    using that by (rule t(1))
  have d: "verifyAndDecode P (tok[5 := v]) pk = Inl NotSealed" if "v AND 0x02 = 0" for v pk
    using that by (rule t(2))
  have e: "Inl BadMagic \<noteq> (Inl SignatureVerificationFailed :: error + decode_result)"
    "Inl NotSealed \<noteq> (Inl SignatureVerificationFailed :: error + decode_result)"
    by simp_all
  show ?thesis
  proof (intro conjI allI impI)
    show "verifyAndDecode P tok pk' = Inl SignatureVerificationFailed" by (rule a)
  next
    fix i v pk k
    assume h: "(i = 4 \<or> (i = 5 \<and> v AND 0x02 \<noteq> 0) \<or> (6 \<le> i \<and> i < 16)
              \<or> ((\<exists>n. uvarintDecode tok 16 = Inr (n, k)) \<and> 16 + k \<le> i
                  \<and> i < length (signed_region tok)))
             \<and> crypto_verify P ((signed_region tok)[i := v]) pk (signature_of tok) \<noteq> Some True"
    show "verifyAndDecode P (tok[i := v]) pk = verifyAndDecode P tok pk'"
      unfolding a by (rule b [OF conjunct1 [OF h] conjunct2 [OF h]])
  next
    fix i v pk
    assume "i < 4 \<and> v \<noteq> tok ! i"
    then show "verifyAndDecode P (tok[i := v]) pk = Inl BadMagic" using c by blast
  next
    fix i v pk
    assume "i < 4 \<and> v \<noteq> tok ! i"
    then have "verifyAndDecode P (tok[i := v]) pk = Inl BadMagic" using c by blast
    then show "verifyAndDecode P (tok[i := v]) pk \<noteq> verifyAndDecode P tok pk'"
      by (simp only: a e not_False_eq_True)
  next
    fix v :: byte and pk
    assume "v AND 0x02 = 0"
    then show "verifyAndDecode P (tok[5 := v]) pk = Inl NotSealed" by (rule d)
  next
    fix v :: byte and pk
    assume "v AND 0x02 = 0"
    then have "verifyAndDecode P (tok[5 := v]) pk = Inl NotSealed" by (rule d)
    then show "verifyAndDecode P (tok[5 := v]) pk \<noteq> verifyAndDecode P tok pk'"
      by (simp only: a e not_False_eq_True)
  qed
qed

text \<open>
  A changed magic byte under the right key and an unchanged token under a wrong key end in
  two different errors.
\<close>

theorem wrong_key_vs_tampered_magic_counterexample:
  "seal demo_platform [0x54, 0x3A, 0x78] (KeyObject 7) \<lparr>opt_compress = None, opt_epochMs = Some (Num 5)\<rparr>
     = Inr demo_token
   \<and> verifyAndDecode demo_platform demo_token (KeyObject 8) = Inl SignatureVerificationFailed
   \<and> verifyAndDecode demo_platform (demo_token[2 := demo_token ! 2 XOR 0xFF]) (KeyObject 7) = Inl BadMagic
   \<and> verifyAndDecode demo_platform (demo_token[2 := demo_token ! 2 XOR 0xFF]) (KeyObject 7)
       \<noteq> verifyAndDecode demo_platform demo_token (KeyObject 8)"
proof -
  have len: "length demo_token < 2 ^ 32" by (simp add: demo_token_parts)
  have w8: "crypto_verify demo_platform (signed_region demo_token) (KeyObject 8) (signature_of demo_token)
            \<noteq> Some True"
    by (simp add: demo_token_parts demo_verify demo_checksum)
  have a: "verifyAndDecode demo_platform demo_token (KeyObject 8) = Inl SignatureVerificationFailed"
    using demo_seal demo_signs_64 len w8 by (rule sealed_wrong_key)
  have b: "verifyAndDecode demo_platform (demo_token[2 := demo_token ! 2 XOR 0xFF]) (KeyObject 7) = Inl BadMagic"
    by (simp add: verifyAndDecode_def demo_token_def demo_content_def)
  show ?thesis
    by (simp add: demo_seal a b)
qed

theorem wrong_key_is_signature_invalid_witness:
  "verifyAndDecode demo_platform demo_token (KeyObject 8) = Inl SignatureVerificationFailed
   \<and> verifyAndDecode demo_platform demo_token (KeyString []) = Inl SignatureVerificationFailed
   \<and> verifyAndDecode demo_platform (demo_token[10 := 0xFF]) (KeyObject 7)
       = verifyAndDecode demo_platform demo_token (KeyObject 8)
   \<and> verifyAndDecode demo_platform (demo_token[4 := 0xFF]) (KeyObject 7)
       = verifyAndDecode demo_platform demo_token (KeyObject 8)
   \<and> verifyAndDecode demo_platform (demo_token[18 := 0xFF]) (KeyObject 7)
       = verifyAndDecode demo_platform demo_token (KeyObject 8)
   \<and> verifyAndDecode demo_platform (demo_token[2 := 0xFF]) (KeyObject 7) = Inl BadMagic
   \<and> verifyAndDecode demo_platform (demo_token[5 := 0x01]) (KeyObject 7) = Inl NotSealed"
proof -
  have len: "length demo_token < 2 ^ 32" by (simp add: demo_token_parts)
  have w8: "crypto_verify demo_platform (signed_region demo_token) (KeyObject 8) (signature_of demo_token)
            \<noteq> Some True"
    by (simp add: demo_token_parts demo_verify demo_checksum)
  have ws: "crypto_verify demo_platform (signed_region demo_token) (KeyString []) (signature_of demo_token)
            \<noteq> Some True"
    by (simp add: demo_verify_string)
  have r: "crypto_verify demo_platform ((signed_region demo_token)[10 := 0xFF]) (KeyObject 7)
               (signature_of demo_token) \<noteq> Some True"
    "crypto_verify demo_platform ((signed_region demo_token)[4 := 0xFF]) (KeyObject 7)
               (signature_of demo_token) \<noteq> Some True"
    "crypto_verify demo_platform ((signed_region demo_token)[18 := 0xFF]) (KeyObject 7)
               (signature_of demo_token) \<noteq> Some True"
    by (simp_all add: demo_token_parts demo_verify) (simp_all add: demo_content_def checksum_def)
  have i18: "(\<exists>n. uvarintDecode demo_token 16 = Inr (n, 1)) \<and> 16 + 1 \<le> (18 :: nat)
             \<and> 18 < length (signed_region demo_token)"
    by (simp add: demo_varint demo_token_parts demo_content_def)
  have t2: "(0xFF :: byte) \<noteq> demo_token ! 2" by (simp add: demo_token_def demo_content_def)
  note w = wrong_key_is_signature_invalid [OF demo_seal demo_signs_64 len w8]
  note same = w [THEN conjunct2, THEN conjunct1, rule_format]
  note magic = w [THEN conjunct2, THEN conjunct2, THEN conjunct1, rule_format, THEN conjunct1]
  note bit = w [THEN conjunct2, THEN conjunct2, THEN conjunct2, rule_format, THEN conjunct1]
  have a: "verifyAndDecode demo_platform demo_token (KeyObject 8) = Inl SignatureVerificationFailed"
    by (rule w [THEN conjunct1])
  have c10: "verifyAndDecode demo_platform (demo_token[10 := 0xFF]) (KeyObject 7)
       = verifyAndDecode demo_platform demo_token (KeyObject 8)"
    by (rule same [where i = 10 and k = 0]) (simp add: r(1))
  have c4: "verifyAndDecode demo_platform (demo_token[4 := 0xFF]) (KeyObject 7)
       = verifyAndDecode demo_platform demo_token (KeyObject 8)"
    by (rule same [where i = 4 and k = 0]) (simp add: r(2))
  have c18: "verifyAndDecode demo_platform (demo_token[18 := 0xFF]) (KeyObject 7)
       = verifyAndDecode demo_platform demo_token (KeyObject 8)"
    by (rule same [where i = 18 and k = 1]) (simp only: i18 r(3) simp_thms)
  have m: "verifyAndDecode demo_platform (demo_token[2 := 0xFF]) (KeyObject 7) = Inl BadMagic"
    by (rule magic) (simp add: t2)
  have ns: "verifyAndDecode demo_platform (demo_token[5 := 0x01]) (KeyObject 7) = Inl NotSealed"
    by (rule bit) simp
  have b: "verifyAndDecode demo_platform demo_token (KeyString []) = Inl SignatureVerificationFailed"
    by (rule wrong_key_is_signature_invalid [OF demo_seal demo_signs_64 len ws, THEN conjunct1])
  show ?thesis by (intro conjI a b c10 c4 c18 m ns)
qed

text \<open>
  C1. Round trip and flag fidelity. \<open>decodeBinary(encodeBinary(s, opts))\<close> returns the
  compress flag and the epoch that went in, and as \<open>tps\<close> the string that
  \<open>new TextDecoder().decode\<close> makes of the UTF-8 bytes of \<open>s\<close> (lemma
  \<open>encode_then_decode\<close>). That decoder removes a leading U+FEFF, so a string that starts
  with U+FEFF does not come back: on every platform with a random source, the string
  U+FEFF \<open>a\<close> with \<open>epochMs = 0\<close> is encoded, and decodes to \<open>a\<close>.
\<close>

theorem roundtrip_loses_leading_bom:
  assumes "randomBytes P 4 \<noteq> Inl NoCryptoAvailable"
  shows "\<exists>out r. encodeBinary P [0xFEFF, 0x61] \<lparr>opt_compress = None, opt_epochMs = Some (Num 0)\<rparr> = Inr out
           \<and> decodeBinary P out = Inr r \<and> tps r = [0x61] \<and> tps r \<noteq> [0xFEFF, 0x61]"
proof -
  let ?opts = "\<lparr>opt_compress = None, opt_epochMs = Some (Num 0)\<rparr>"
  from assms obtain nb where rnd: "randomBytes P 4 = Inr nb"
    by (auto simp: randomBytes_def split: if_splits)
  have n: "is_uint48 (Num 0)" by (simp add: is_uint48_def)
  have ep: "resolve_epochMs [0xFEFF, 0x61] ?opts = Inr (Num 0)" by (simp add: resolve_epochMs_def)
  from encode_then_decode [OF n ep rnd, of "TextEncoder_encode [0xFEFF, 0x61]"]
  obtain out where "encodeBinary P [0xFEFF, 0x61] ?opts = Inr out"
    and "decodeBinary P out
             = Inr \<lparr>version = js ''tpsuid7rb'', epochMs = BigInt (Num 0), compressed = False,
                    nonce = nonce_value nb, tps = TextDecoder_decode (TextEncoder_encode [0xFEFF, 0x61])\<rparr>"
    by (auto simp: utf8_bom_a)
  then show ?thesis by (auto simp: utf8_bom_a decode_bom_a)
qed

theorem roundtrip_loses_leading_bom_witness:
  "\<exists>out r. encodeBinary demo_platform [0xFEFF, 0x61] \<lparr>opt_compress = None, opt_epochMs = Some (Num 0)\<rparr>
             = Inr out
         \<and> decodeBinary demo_platform out = Inr r \<and> tps r = [0x61] \<and> tps r \<noteq> [0xFEFF, 0x61]"
proof -
  have "randomBytes demo_platform 4 \<noteq> Inl NoCryptoAvailable" by (simp add: demo_random)
  then show ?thesis by (rule roundtrip_loses_leading_bom)
qed

text \<open>
  C2. Seal and verify. The signature that \<open>seal\<close> appends is the signature of the bytes
  before the seal type, which end with the payload and carry the seal bit in their flags
  byte (lemma \<open>seal_signs_signed_region\<close>), and \<open>verifyAndDecode\<close> under a matching key
  returns what \<open>decodeBinary\<close> makes of those bytes (lemma \<open>verify_after_seal\<close>). The
  returned \<open>tps\<close> again went through \<open>new TextDecoder().decode\<close>: the sealed string
  U+FEFF \<open>a\<close> verifies and comes back as \<open>a\<close>.
\<close>

theorem seal_verify_loses_leading_bom:
  assumes sl: "seal P [0xFEFF, 0x61] sk \<lparr>opt_compress = None, opt_epochMs = Some (Num 0)\<rparr> = Inr tok"
    and s64: "signs_64_bytes P"
    and ok: "crypto_verify P (signed_region tok) pk (signature_of tok) = Some True"
  shows "\<exists>r. verifyAndDecode P tok pk = Inr r \<and> tps r = [0x61] \<and> tps r \<noteq> [0xFEFF, 0x61]"
proof -
  let ?opts = "\<lparr>opt_compress = None, opt_epochMs = Some (Num 0)\<rparr>"
  from seal_layout [OF sl] obtain n nb pl sg where
    rnd: "randomBytes P 4 = Inr nb"
    and pl: "pl = TextEncoder_encode [0xFEFF, 0x61]"
    and sg: "signEd25519 P (layout 0x02 (BigInt n) nb pl) sk = Inr sg"
    and tok: "tok = layout 0x02 (BigInt n) nb pl @ [0x01] @ sg"
    by auto
  have "length sg = 64" using signEd25519_facts(2) [OF sg s64] .
  moreover have "length nb = 4" using rnd by (rule randomBytes_length)
  ultimately have len: "length tok < 2 ^ 32"
    by (simp add: tok pl utf8_bom_a layout_def MAGIC_def uvarintEncode_loop.simps)
  from verify_after_seal [OF sl s64 len _ ok]
  show ?thesis by (auto simp: utf8_bom_a decode_bom_a)
qed

theorem seal_verify_loses_leading_bom_witness:
  "\<exists>tok r. seal demo_platform [0xFEFF, 0x61] (KeyObject 7)
              \<lparr>opt_compress = None, opt_epochMs = Some (Num 0)\<rparr> = Inr tok
         \<and> verifyAndDecode demo_platform tok (KeyObject 7) = Inr r
         \<and> tps r = [0x61] \<and> tps r \<noteq> [0xFEFF, 0x61]"
proof -
  let ?C = "layout 0x02 0 [3, 20, 37, 54] [0xEF, 0xBB, 0xBF, 0x61]"
  let ?tok = "?C @ [0x01] @ replicate 64 (checksum ?C + 7)"
  have l: "length ?C = 21" by (simp add: layout_def MAGIC_def uvarintEncode_loop.simps)
  have ok: "crypto_verify demo_platform (signed_region ?tok) (KeyObject 7) (signature_of ?tok) = Some True"
    by (simp add: signed_region_def signature_of_def l demo_verify)
  from seal_verify_loses_leading_bom [OF demo_seal_bom demo_signs_64 ok] demo_seal_bom
  show ?thesis by blast
qed

text \<open>
  C7. \<open>validateBinaryB64\<close> tests the trimmed string against \<open>REGEX\<close>: it returns true
  exactly when the string, without the white space around it, is the prefix
  \<open>tpsuid7rb_\<close> followed by one or more characters of the base64url alphabet. It says
  nothing about the bytes: \<open>tpsuid7rb_AAAA\<close> passes, and \<open>decodeBinaryB64\<close> throws
  \<open>too short\<close> on it.
\<close>

theorem validateBinaryB64_checks_shape_only:
  "(validateBinaryB64 s \<longleftrightarrow> prefix_and_charset (trim s))
   \<and> validateBinaryB64 (js ''tpsuid7rb_AAAA'')
   \<and> decodeBinaryB64 P (js ''tpsuid7rb_AAAA'') = Inl TooShort"
  by (simp add: validateBinaryB64_def REGEX_test js_AAAA trim_AAAA shape_AAAA decode_AAAA)

text \<open>
  Without the trimming the claim fails: a string with a leading space is accepted although
  it does not start with the prefix.
\<close>

theorem validateBinaryB64_untrimmed_counterexample:
  "validateBinaryB64 (0x20 # js ''tpsuid7rb_AAAA'') \<and> \<not> prefix_and_charset (0x20 # js ''tpsuid7rb_AAAA'')"
proof -
  have "trim ([0x20] @ (PREFIX @ [0x41, 0x41, 0x41, 0x41]) @ []) = trim (PREFIX @ [0x41, 0x41, 0x41, 0x41])"
    by (rule trim_surrounded) (simp_all add: is_js_space_def)
  then have a: "validateBinaryB64 (0x20 # js ''tpsuid7rb_AAAA'')"
    by (simp add: validateBinaryB64_def REGEX_test js_AAAA trim_AAAA shape_AAAA)
  have b: "\<not> prefix_and_charset (0x20 # js ''tpsuid7rb_AAAA'')"
    by (simp add: prefix_and_charset_def startsWith_def js_AAAA PREFIX_units)
  show ?thesis using a b by simp
qed

theorem validateBinaryB64_checks_shape_only_witness:
  "validateBinaryB64 (0x20 # js ''tpsuid7rb_AAAA'')
   \<and> prefix_and_charset (trim (0x20 # js ''tpsuid7rb_AAAA''))
   \<and> decodeBinaryB64 demo_platform (js ''tpsuid7rb_AAAA'') = Inl TooShort"
proof -
  have "trim ([0x20] @ (PREFIX @ [0x41, 0x41, 0x41, 0x41]) @ []) = trim (PREFIX @ [0x41, 0x41, 0x41, 0x41])"
    by (rule trim_surrounded) (simp_all add: is_js_space_def)
  then have "prefix_and_charset (trim (0x20 # js ''tpsuid7rb_AAAA''))"
    by (simp add: js_AAAA trim_AAAA shape_AAAA)
  then show ?thesis
    using validateBinaryB64_checks_shape_only [of "0x20 # js ''tpsuid7rb_AAAA''" demo_platform]
    by simp
qed

text \<open>
  C10. Both \<open>decodeBinaryB64\<close> and \<open>validateBinaryB64\<close> start with \<open>id.trim()\<close>: white
  space around the identifier changes neither the result nor the exception of the one, nor
  the answer of the other.
\<close>

theorem trim_before_prefix_and_pattern:
  assumes "\<forall>u \<in> set w1. is_js_space u" and "\<forall>u \<in> set w2. is_js_space u"
  shows "decodeBinaryB64 P (w1 @ ident @ w2) = decodeBinaryB64 P ident
       \<and> validateBinaryB64 (w1 @ ident @ w2) = validateBinaryB64 ident
       \<and> validateBinaryB64 (w1 @ ident @ w2) = validateBinaryB64 (trim ident)"
  using trim_surrounded [OF assms, of ident]
  by (simp add: decodeBinaryB64_def validateBinaryB64_def trim_trim)

theorem trim_before_prefix_and_pattern_witness:
  "decodeBinaryB64 demo_platform ([0x20, 0x09] @ js ''tpsuid7rb_AAAA'' @ [0x0A])
     = decodeBinaryB64 demo_platform (js ''tpsuid7rb_AAAA'')
   \<and> validateBinaryB64 ([0x20, 0x09] @ js ''tpsuid7rb_AAAA'' @ [0x0A])
     = validateBinaryB64 (js ''tpsuid7rb_AAAA'')"
proof -
  have a: "\<forall>u \<in> set [0x20, 0x09]. is_js_space u" by (simp add: is_js_space_def)
  have b: "\<forall>u \<in> set [0x0A]. is_js_space u" by (simp add: is_js_space_def)
  from trim_before_prefix_and_pattern [OF a b, of demo_platform "js ''tpsuid7rb_AAAA''"]
  show ?thesis by simp
qed

text \<open>
  C8. \<open>generate\<close> reads the clock once. Whenever the clock reading is a time from 0 to
  \<open>2^48 - 1\<close>, the coordinates are numbers, the platform has a random source, and the
  payload is below \<open>2^32\<close> bytes and, when compressed, inflates back, \<open>generate\<close> returns
  an identifier. \<open>decodeBinaryB64\<close> of that identifier succeeds; its \<open>epochMs\<close> is the
  clock reading to the millisecond; its \<open>tps\<close> is the string that \<open>generateTPSString\<close>
  printed, and the time that this string denotes, as \<open>epochMsFromTPSString\<close> reads it, is
  the clock reading rounded down to a whole second. The string is the same for every
  instant of that second, and the header is not computed from it.
\<close>

theorem generate_header_exact_text_whole_seconds:
  assumes lo: "0 \<le> now" and hi: "now < 2 ^ 48"
    and co: "coordinates_are_numbers opts"
    and rnd: "randomBytes P 4 = Inr nb"
    and pl: "(if (case gen_compress opts of Some c \<Rightarrow> c | None \<Rightarrow> False)
              then deflateRaw P (TextEncoder_encode (generateTPSString now opts))
              else Inr (TextEncoder_encode (generateTPSString now opts))) = Inr pl"
    and len: "length pl < 2 ^ 32"
    and z: "(case gen_compress opts of Some c \<Rightarrow> c | None \<Rightarrow> False)
            \<longrightarrow> zlib_roundtrip P (TextEncoder_encode (generateTPSString now opts))"
  shows "\<exists>ident r. generate P now opts = Inr ident
         \<and> decodeBinaryB64 P ident = Inr r
         \<and> epochMs r = now
         \<and> tps r = generateTPSString now opts
         \<and> epochMsFromTPSString (tps r) = Inr (1000 * (now div 1000))
         \<and> generateTPSString now opts = generateTPSString (1000 * (now div 1000)) opts"
proof -
  obtain ident where g: "generate P now opts = Inr ident"
    and d: "decodeBinaryB64 P ident
             = Inr \<lparr>version = js ''tpsuid7rb'', epochMs = now,
                    compressed = (case gen_compress opts of Some c \<Rightarrow> c | None \<Rightarrow> False),
                    nonce = nonce_value nb,
                    tps = TextDecoder_decode (TextEncoder_encode (generateTPSString now opts))\<rparr>"
    using generate_decodes [OF lo hi rnd pl len z] by blast
  note t = epochMs_of_generated_text [OF lo hi co]
  have w: "generateTPSString now opts = generateTPSString (1000 * (now div 1000)) opts"
    by (simp only: generateTPSString_whole_seconds)
  define r where "r = \<lparr>version = js ''tpsuid7rb'', epochMs = now,
                    compressed = (case gen_compress opts of Some c \<Rightarrow> c | None \<Rightarrow> False),
                    nonce = nonce_value nb, tps = generateTPSString now opts\<rparr>"
  have d': "decodeBinaryB64 P ident = Inr r" unfolding r_def using d by (simp only: t(2))
  have e: "epochMs r = now" and s: "tps r = generateTPSString now opts" by (simp_all add: r_def)
  have p: "epochMsFromTPSString (tps r) = Inr (1000 * (now div 1000))" by (simp only: s t(1))
  show ?thesis
    using g d' e s p w by blast
qed

theorem generate_header_exact_text_whole_seconds_witness:
  "\<exists>ident r.
     generate demo_platform 1767969025123
       \<lparr>latitude = None, longitude = None, altitude = None, gen_compress = None\<rparr> = Inr ident
     \<and> decodeBinaryB64 demo_platform ident = Inr r
     \<and> epochMs r = 1767969025123
     \<and> tps r = js ''tps://unknown@T:greg.m3.c1.y26.M01.d09.h14.n30.s25''
     \<and> epochMsFromTPSString (tps r) = Inr 1767969025000"
proof -
  let ?o = "\<lparr>latitude = None, longitude = None, altitude = None, gen_compress = None\<rparr>"
  let ?u = "TextEncoder_encode (generateTPSString 1767969025123 ?o)"
  have lo: "(0 :: int) \<le> 1767969025123" and hi: "(1767969025123 :: int) < 2 ^ 48" by simp_all
  have co: "coordinates_are_numbers ?o" by (simp add: coordinates_are_numbers_def)
  have pl: "(if (case gen_compress ?o of Some c \<Rightarrow> c | None \<Rightarrow> False)
             then deflateRaw demo_platform ?u else Inr ?u) = Inr ?u"
    by simp
  have len: "length ?u < 2 ^ 32" by (simp only: demo_generated_text demo_generated_utf8) simp
  have z: "(case gen_compress ?o of Some c \<Rightarrow> c | None \<Rightarrow> False)
           \<longrightarrow> zlib_roundtrip demo_platform ?u"
    by simp
  have fl: "1000 * ((1767969025123 :: int) div 1000) = 1767969025000" by simp
  note w = generate_header_exact_text_whole_seconds [OF lo hi co demo_random pl len z]
  from w obtain ident where "\<exists>r. generate demo_platform 1767969025123 ?o = Inr ident
         \<and> decodeBinaryB64 demo_platform ident = Inr r
         \<and> epochMs r = 1767969025123
         \<and> tps r = generateTPSString 1767969025123 ?o
         \<and> epochMsFromTPSString (tps r) = Inr (1000 * (1767969025123 div 1000))
         \<and> generateTPSString 1767969025123 ?o
             = generateTPSString (1000 * (1767969025123 div 1000)) ?o" ..
  then obtain r where c: "generate demo_platform 1767969025123 ?o = Inr ident
         \<and> decodeBinaryB64 demo_platform ident = Inr r
         \<and> epochMs r = 1767969025123
         \<and> tps r = generateTPSString 1767969025123 ?o
         \<and> epochMsFromTPSString (tps r) = Inr (1000 * (1767969025123 div 1000))
         \<and> generateTPSString 1767969025123 ?o
             = generateTPSString (1000 * (1767969025123 div 1000)) ?o" ..
  note f = c [THEN conjunct1] c [THEN conjunct2, THEN conjunct1]
    c [THEN conjunct2, THEN conjunct2, THEN conjunct1]
    c [THEN conjunct2, THEN conjunct2, THEN conjunct2, THEN conjunct1]
    c [THEN conjunct2, THEN conjunct2, THEN conjunct2, THEN conjunct2, THEN conjunct1]
  have t: "tps r = js ''tps://unknown@T:greg.m3.c1.y26.M01.d09.h14.n30.s25''"
    using f(4) by (simp only: demo_generated_text)
  have e: "epochMsFromTPSString (tps r) = Inr 1767969025000"
    using f(5) by (simp only: fl)
  show ?thesis
    by (intro exI [of _ ident] exI [of _ r] conjI f(1) f(2) f(3) t e)
qed

end
